theory Spec2Isabelle
  imports
    Main
    "HOL-Library.Char_ord"
    "HOL-Library.List_Lexorder"
    "HOL-Library.Product_Lexorder"
    "HOL-Library.Sublist"
begin

section \<open>Values of the program\<close>

text \<open>
  A Python \<^verbatim>\<open>str\<close> is represented by its UTF-8 encoding, a \<^typ>\<open>string\<close>;
  the order of \<^typ>\<open>string\<close> (lexicographic on bytes) is then Python's order on
  \<^verbatim>\<open>str\<close> (lexicographic on code points).  A decoded JSON document is a
  \<open>json\<close> value; \<open>JNull\<close> is Python's \<^verbatim>\<open>None\<close>.  A dictionary is an association
  list in insertion order; a well-formed one has distinct keys.  Numbers
  with a fraction are outside the embedding.
\<close>

datatype json =
    JNull
  | JBool bool
  | JInt int
  | JStr string
  | JList "json list"
  | JObj "(string \<times> json) list"

datatype error =
    ReadTimeout
  | ConnectTimeout
  | ConnectionError
  | HTTPError nat
  | JSONDecodeError
  | AttributeError
  | TypeError
  | ValueError
  | OSError
  | ReError

type_synonym date = "nat \<times> nat \<times> nat"

text \<open>The category table \<^verbatim>\<open>cat_map\<close>: a dictionary from \<^verbatim>\<open>int\<close> to \<^verbatim>\<open>str\<close>.\<close>

type_synonym catmap = "(int \<times> string) list"

text \<open>
  The dictionary built by \<^verbatim>\<open>parse_event\<close>, one row of the data frames.  Its keys are
  \<^verbatim>\<open>"Esem\'eny neve"\<close>, \<^verbatim>\<open>"Kezdete"\<close>, \<^verbatim>\<open>"V\'ege"\<close>, \<^verbatim>\<open>"Helysz\'in"\<close>, \<^verbatim>\<open>"Kateg\'oria"\<close> and
  \<^verbatim>\<open>"Aloldal"\<close>; the two dates are \<^verbatim>\<open>None\<close> or an ISO string.
\<close>

record event =
  Esemeny_neve :: string
  Kezdete :: "string option"
  Vege :: "string option"
  Helyszin :: json
  Kategoria :: string
  Aloldal :: json


section \<open>Python built-ins\<close>

text \<open>
  What the standard library does outside the cases written out below is a
  parameter of the model, so that every theorem holds whatever it does there:
  \<^verbatim>\<open>str.lower\<close> and \<^verbatim>\<open>int\<close> on text with non-ASCII characters, \<^verbatim>\<open>str\<close> of a list or a
  dictionary, \<^verbatim>\<open>strptime\<close> on text that is not eight ASCII digits,
  \<^verbatim>\<open>datetime.fromisoformat\<close> on text that is not of the form \<^verbatim>\<open>dddd-dd-dd\<close>, and the
  regular expression engine on a pattern with a metacharacter (\<open>None\<close>: the
  pattern does not compile).
\<close>

record pylib =
  lower_other :: "string \<Rightarrow> string"
  int_other :: "string \<Rightarrow> int option"
  str_other :: "json \<Rightarrow> string"
  strptime_other :: "string \<Rightarrow> date option"
  fromisoformat_other :: "string \<Rightarrow> date option"
  re_other :: "string \<Rightarrow> (string \<Rightarrow> bool) option"

definition bind :: "error + 'a \<Rightarrow> ('a \<Rightarrow> error + 'b) \<Rightarrow> error + 'b" where
  "bind x f = (case x of Inl e \<Rightarrow> Inl e | Inr v \<Rightarrow> f v)"

text \<open>A comprehension \<^verbatim>\<open>[f(x) for x in xs]\<close> whose \<open>f\<close> may raise.\<close>

fun map_err :: "('a \<Rightarrow> error + 'b) \<Rightarrow> 'a list \<Rightarrow> error + 'b list" where
  "map_err f [] = Inr []"
| "map_err f (x # xs) = bind (f x) (\<lambda>y. bind (map_err f xs) (\<lambda>ys. Inr (y # ys)))"

text \<open>A loop \<^verbatim>\<open>for x in xs: acc = f(acc, x)\<close> whose body may raise.\<close>

fun fold_err :: "('b \<Rightarrow> 'a \<Rightarrow> error + 'b) \<Rightarrow> 'a list \<Rightarrow> 'b \<Rightarrow> error + 'b" where
  "fold_err f [] acc = Inr acc"
| "fold_err f (x # xs) acc = bind (f acc x) (fold_err f xs)"

fun truthy :: "json \<Rightarrow> bool" where
  "truthy JNull = False"
| "truthy (JBool b) = b"
| "truthy (JInt i) = (i \<noteq> 0)"
| "truthy (JStr s) = (s \<noteq> [])"
| "truthy (JList xs) = (xs \<noteq> [])"
| "truthy (JObj kvs) = (kvs \<noteq> [])"

definition py_or :: "json \<Rightarrow> json \<Rightarrow> json" where
  "py_or a b = (if truthy a then a else b)"

text \<open>\<^verbatim>\<open>x.get(k, d)\<close>: only a dictionary has the method.\<close>

fun dict_get :: "json \<Rightarrow> string \<Rightarrow> json \<Rightarrow> error + json" where
  "dict_get (JObj kvs) k d = Inr (case map_of kvs k of Some v \<Rightarrow> v | None \<Rightarrow> d)"
| "dict_get _ k d = Inl AttributeError"

text \<open>\<^verbatim>\<open>cat_map.get(k, d)\<close> and \<^verbatim>\<open>cat_map[k] = v\<close> on the category table.\<close>

definition cat_get :: "catmap \<Rightarrow> int \<Rightarrow> string \<Rightarrow> string" where
  "cat_get m k d = (case map_of m k of Some v \<Rightarrow> v | None \<Rightarrow> d)"

fun dict_set :: "('k \<times> 'v) list \<Rightarrow> 'k \<Rightarrow> 'v \<Rightarrow> ('k \<times> 'v) list" where
  "dict_set [] k v = [(k, v)]"
| "dict_set ((k', v') # m) k v = (if k' = k then (k, v) # m else (k', v') # dict_set m k v)"

subsection \<open>Text\<close>

definition is_ascii :: "char \<Rightarrow> bool" where
  "is_ascii c = ((of_char c :: nat) < 128)"

definition is_digit :: "char \<Rightarrow> bool" where
  "is_digit c = (CHR ''0'' \<le> c \<and> c \<le> CHR ''9'')"

definition digit_of_char :: "char \<Rightarrow> nat" where
  "digit_of_char c = of_char c - 48"

definition char_of_digit :: "nat \<Rightarrow> char" where
  "char_of_digit n = char_of (48 + n)"

text \<open>The characters Python counts as whitespace, in UTF-8.\<close>

definition whitespace :: "string list" where
  "whitespace =
     [[CHR 0x09], [CHR 0x0A], [CHR 0x0B], [CHR 0x0C], [CHR 0x0D],
      [CHR 0x1C], [CHR 0x1D], [CHR 0x1E], [CHR 0x1F], [CHR 0x20],
      [CHR 0xC2, CHR 0x85], [CHR 0xC2, CHR 0xA0], [CHR 0xE1, CHR 0x9A, CHR 0x80],
      [CHR 0xE2, CHR 0x80, CHR 0x80], [CHR 0xE2, CHR 0x80, CHR 0x81],
      [CHR 0xE2, CHR 0x80, CHR 0x82], [CHR 0xE2, CHR 0x80, CHR 0x83],
      [CHR 0xE2, CHR 0x80, CHR 0x84], [CHR 0xE2, CHR 0x80, CHR 0x85],
      [CHR 0xE2, CHR 0x80, CHR 0x86], [CHR 0xE2, CHR 0x80, CHR 0x87],
      [CHR 0xE2, CHR 0x80, CHR 0x88], [CHR 0xE2, CHR 0x80, CHR 0x89],
      [CHR 0xE2, CHR 0x80, CHR 0x8A], [CHR 0xE2, CHR 0x80, CHR 0xA8],
      [CHR 0xE2, CHR 0x80, CHR 0xA9], [CHR 0xE2, CHR 0x80, CHR 0xAF],
      [CHR 0xE2, CHR 0x81, CHR 0x9F], [CHR 0xE3, CHR 0x80, CHR 0x80]]"

function strip_front :: "string list \<Rightarrow> string \<Rightarrow> string" where
  "strip_front seqs s =
     (case find (\<lambda>w. w \<noteq> [] \<and> prefix w s) seqs of
        None \<Rightarrow> s
      | Some w \<Rightarrow> strip_front seqs (drop (length w) s))"
  by pat_completeness auto
termination
proof (relation "measure (\<lambda>(seqs, s). length s)")
  show "wf (measure (\<lambda>(seqs, s). length s))" by simp
next
  fix seqs :: "string list" and s w :: string
  assume "find (\<lambda>w. w \<noteq> [] \<and> prefix w s) seqs = Some w"
  then have "w \<noteq> []" and "prefix w s"
    by (auto simp: find_Some_iff)
  then have "s \<noteq> []" by auto
  with \<open>w \<noteq> []\<close> show "((seqs, drop (length w) s), (seqs, s)) \<in> measure (\<lambda>(seqs, s). length s)"
    by simp
qed

declare strip_front.simps [simp del]

text \<open>\<^verbatim>\<open>s.strip()\<close>: the whitespace at both ends goes.  A text that begins and ends
  with a printable ASCII character other than the space is left as it is.\<close>

definition py_strip :: "string \<Rightarrow> string" where
  "py_strip s = rev (strip_front (map rev whitespace) (rev (strip_front whitespace s)))"


text \<open>\<^verbatim>\<open>x.strip()\<close> on any value: only a \<^verbatim>\<open>str\<close> has the method.\<close>

fun strip_of :: "json \<Rightarrow> error + string" where
  "strip_of (JStr s) = Inr (py_strip s)"
| "strip_of _ = Inl AttributeError"

definition ascii_lower :: "char \<Rightarrow> char" where
  "ascii_lower c = (if CHR ''A'' \<le> c \<and> c \<le> CHR ''Z'' then char_of (of_char c + (32::nat)) else c)"

text \<open>\<^verbatim>\<open>s.lower()\<close>.\<close>

definition py_lower :: "pylib \<Rightarrow> string \<Rightarrow> string" where
  "py_lower lib s = (if list_all is_ascii s then map ascii_lower s else lower_other lib s)"

text \<open>\<^verbatim>\<open>s.split(",")\<close> and \<^verbatim>\<open>sep.join(xs)\<close>.\<close>

fun split_on :: "char \<Rightarrow> string \<Rightarrow> string list" where
  "split_on sep [] = [[]]"
| "split_on sep (c # cs) =
     (if c = sep then [] # split_on sep cs
      else (case split_on sep cs of [] \<Rightarrow> [[c]] | p # ps \<Rightarrow> (c # p) # ps))"

fun join :: "string \<Rightarrow> string list \<Rightarrow> string" where
  "join sep [] = []"
| "join sep [x] = x"
| "join sep (x # y # ys) = x @ sep @ join sep (y # ys)"

text \<open>\<^verbatim>\<open>sub in s\<close> on two strings.\<close>

fun contains :: "string \<Rightarrow> string \<Rightarrow> bool" where
  "contains sub [] = (sub = [])"
| "contains sub (c # cs) = (prefix sub (c # cs) \<or> contains sub cs)"

text \<open>Iterating over a \<^verbatim>\<open>str\<close> yields its characters, here their UTF-8 sequences.\<close>

definition utf8_len :: "char \<Rightarrow> nat" where
  "utf8_len c =
     (let b = of_char c :: nat
      in if b < 0xC0 then 1 else if b < 0xE0 then 2 else if b < 0xF0 then 3 else 4)"

function utf8_chars :: "string \<Rightarrow> string list" where
  "utf8_chars [] = []"
| "utf8_chars (c # cs) = take (utf8_len c) (c # cs) # utf8_chars (drop (utf8_len c) (c # cs))"
  by pat_completeness auto
termination
  by (relation "measure length") (auto simp: utf8_len_def Let_def)

text \<open>\<^verbatim>\<open>for x in v\<close>: a list yields its items, a dictionary its keys, a string its
  characters; nothing else is iterable.\<close>

fun py_iter :: "json \<Rightarrow> error + json list" where
  "py_iter (JList xs) = Inr xs"
| "py_iter (JObj kvs) = Inr (map (\<lambda>kv. JStr (fst kv)) kvs)"
| "py_iter (JStr s) = Inr (map JStr (utf8_chars s))"
| "py_iter _ = Inl TypeError"

subsection \<open>Integers and text\<close>

fun digits10 :: "nat \<Rightarrow> string" where
  "digits10 n =
     (if n < 10 then [char_of_digit n] else digits10 (n div 10) @ [char_of_digit (n mod 10)])"

declare digits10.simps [simp del]

text \<open>\<^verbatim>\<open>str(i)\<close> for an \<^verbatim>\<open>int\<close>.\<close>

definition str_int :: "int \<Rightarrow> string" where
  "str_int i = (if i < 0 then CHR ''-'' # digits10 (nat (- i)) else digits10 (nat i))"

text \<open>
  The digits of a decimal literal, read after its first digit: single underscores
  may stand between digits.
\<close>

fun digits_from :: "nat \<Rightarrow> string \<Rightarrow> nat option" where
  "digits_from acc [] = Some acc"
| "digits_from acc [c] = (if is_digit c then Some (10 * acc + digit_of_char c) else None)"
| "digits_from acc (c # d # ds) =
     (if is_digit c then digits_from (10 * acc + digit_of_char c) (d # ds)
      else if c = CHR ''_'' \<and> is_digit d then digits_from (10 * acc + digit_of_char d) ds
      else None)"

definition digits_value :: "string \<Rightarrow> nat option" where
  "digits_value s =
     (case s of [] \<Rightarrow> None
      | c # cs \<Rightarrow> if is_digit c then digits_from (digit_of_char c) cs else None)"

text \<open>\<^verbatim>\<open>int(s)\<close> for a \<^verbatim>\<open>str\<close>; \<open>None\<close> is \<^verbatim>\<open>ValueError\<close>.\<close>

definition int_of_str :: "pylib \<Rightarrow> string \<Rightarrow> int option" where
  "int_of_str lib s =
     (if \<not> list_all is_ascii s then int_other lib s
      else (case py_strip s of
              [] \<Rightarrow> None
            | c # cs \<Rightarrow>
                if c = CHR ''-'' then map_option (\<lambda>n. - int n) (digits_value cs)
                else if c = CHR ''+'' then map_option int (digits_value cs)
                else map_option int (digits_value (c # cs))))"

text \<open>\<^verbatim>\<open>int(x)\<close> and \<^verbatim>\<open>str(x)\<close> for any value.\<close>

fun py_int :: "pylib \<Rightarrow> json \<Rightarrow> error + int" where
  "py_int lib (JInt i) = Inr i"
| "py_int lib (JBool b) = Inr (if b then 1 else 0)"
| "py_int lib (JStr s) = (case int_of_str lib s of None \<Rightarrow> Inl ValueError | Some i \<Rightarrow> Inr i)"
| "py_int lib _ = Inl TypeError"

fun py_str :: "pylib \<Rightarrow> json \<Rightarrow> string" where
  "py_str lib (JStr s) = s"
| "py_str lib (JInt i) = str_int i"
| "py_str lib (JBool b) = (if b then ''True'' else ''False'')"
| "py_str lib JNull = ''None''"
| "py_str lib v = str_other lib v"

subsection \<open>Dates\<close>

definition leap_year :: "nat \<Rightarrow> bool" where
  "leap_year y = (y mod 4 = 0 \<and> (y mod 100 \<noteq> 0 \<or> y mod 400 = 0))"

definition days_in_month :: "nat \<Rightarrow> nat \<Rightarrow> nat" where
  "days_in_month y m =
     (if m = 2 then (if leap_year y then 29 else 28)
      else if m = 4 \<or> m = 6 \<or> m = 9 \<or> m = 11 then 30 else 31)"

text \<open>The dates \<^verbatim>\<open>datetime.date\<close> can hold.\<close>

definition valid_date :: "date \<Rightarrow> bool" where
  "valid_date dt =
     (case dt of (y, m, d) \<Rightarrow>
        1 \<le> y \<and> y \<le> 9999 \<and> 1 \<le> m \<and> m \<le> 12 \<and> 1 \<le> d \<and> d \<le> days_in_month y m)"

definition digits_val :: "string \<Rightarrow> nat" where
  "digits_val s = foldl (\<lambda>acc c. 10 * acc + digit_of_char c) 0 s"

definition zero_pad :: "nat \<Rightarrow> nat \<Rightarrow> string" where
  "zero_pad w n = replicate (w - length (digits10 n)) CHR ''0'' @ digits10 n"

text \<open>\<^verbatim>\<open>d.isoformat()\<close> for a date.\<close>

definition isoformat :: "date \<Rightarrow> string" where
  "isoformat dt =
     (case dt of (y, m, d) \<Rightarrow> zero_pad 4 y @ ''-'' @ zero_pad 2 m @ ''-'' @ zero_pad 2 d)"

text \<open>
  \<^verbatim>\<open>datetime.strptime(s, "%Y%m%d").date()\<close>; \<open>None\<close> is \<^verbatim>\<open>ValueError\<close>.  On eight
  digits the format reads year, month and day in place.
\<close>

definition strptime_Ymd :: "pylib \<Rightarrow> string \<Rightarrow> date option" where
  "strptime_Ymd lib s =
     (if length s = 8 \<and> list_all is_digit s then
        (let dt = (digits_val (take 4 s), digits_val (take 2 (drop 4 s)), digits_val (drop 6 s))
         in if valid_date dt then Some dt else None)
      else strptime_other lib s)"

text \<open>The texts of the form \<^verbatim>\<open>dddd-dd-dd\<close>, which \<^verbatim>\<open>isoformat\<close> produces.\<close>

definition iso_shape :: "string \<Rightarrow> bool" where
  "iso_shape s =
     (length s = 10 \<and> list_all is_digit (take 4 s) \<and> s ! 4 = CHR ''-''
      \<and> list_all is_digit (take 2 (drop 5 s)) \<and> s ! 7 = CHR ''-''
      \<and> list_all is_digit (drop 8 s))"

text \<open>\<^verbatim>\<open>datetime.fromisoformat(s).date()\<close>; \<open>None\<close> is \<^verbatim>\<open>ValueError\<close>.\<close>

definition fromisoformat :: "pylib \<Rightarrow> string \<Rightarrow> date option" where
  "fromisoformat lib s =
     (if iso_shape s then
        (let dt = (digits_val (take 4 s), digits_val (take 2 (drop 5 s)), digits_val (drop 8 s))
         in if valid_date dt then Some dt else None)
      else fromisoformat_other lib s)"

subsection \<open>Regular expressions\<close>

text \<open>
  \<^verbatim>\<open>re.compile(pat)\<close>, and \<^verbatim>\<open>search\<close> with the compiled pattern.  A pattern with
  none of the characters \<^verbatim>\<open>. ^ $ * + ? { } [ ] | ( )\<close> and the backslash matches itself only.
\<close>

definition re_special :: "char \<Rightarrow> bool" where
  "re_special c = (c \<in> set (CHR 0x5C # ''.^$*+?{}[]|()''))"

definition re_compile :: "pylib \<Rightarrow> string \<Rightarrow> (string \<Rightarrow> bool) option" where
  "re_compile lib pat =
     (if list_ex re_special pat then re_other lib pat else Some (contains pat))"


section \<open>The world outside the program\<close>

text \<open>
  The server, the disk and the clock are oracles: \<open>net E n rq\<close> is what the \<open>n\<close>-th
  HTTP request of the process (counted from 0) meets when it asks for \<open>rq\<close>,
  \<open>disk E n\<close> says whether the \<open>n\<close>-th file operation fails and how, and
  \<open>clock E n\<close> is what the \<open>n\<close>-th reading of \<^verbatim>\<open>datetime.utcnow().isoformat()\<close>
  returns.
\<close>

datatype endpoint = API_CATS | API_POSTS

record request =
  url :: endpoint
  per_page :: nat
  page :: int

record response =
  status_code :: nat
  headers :: "(string \<times> string) list"
  body :: "json option"

datatype outcome = Replies response | Raises error

text \<open>
  A file holds a text that \<^verbatim>\<open>json.loads\<close> decodes to a document, or a text it
  rejects.  \<^verbatim>\<open>json.dumps\<close> and \<^verbatim>\<open>json.loads\<close> are taken to be inverse to each other on
  documents, so a file written from a document is represented by that
  document.
\<close>

datatype content = Document json | Unparsable string

text \<open>
  A failing \<^verbatim>\<open>write_text\<close> fails when it opens the file (nothing is written), or
  after it has truncated the file, leaving a fragment.  Any other failing
  operation leaves the disk as it is.
\<close>

datatype fault = OpenFails | WriteFails string

record fs =
  dir_exists :: bool
  CACHE_CATS :: "content option"
  CACHE_POSTS :: "content option"

record env =
  net :: "nat \<Rightarrow> request \<Rightarrow> outcome"
  disk :: "nat \<Rightarrow> fault option"
  clock :: "nat \<Rightarrow> string"

datatype phase = Categories | Posts int

datatype signal =
    Progress int int
  | Status phase
  | PageEvents "event list"
  | Finished catmap json string
  | Failed error

record world =
  calls :: nat
  sleeps :: nat
  ios :: nat
  ticks :: nat
  emitted :: "signal list"
  files :: fs


section \<open>Retrieval layer: \<^verbatim>\<open>safe_get\<close>\<close>

definition PER_PAGE :: nat where
  "PER_PAGE = 100"

definition requests_get :: "env \<Rightarrow> request \<Rightarrow> world \<Rightarrow> (error + response) \<times> world" where
  "requests_get E rq w =
     ((case net E (calls w) rq of Raises e \<Rightarrow> Inl e | Replies r \<Rightarrow> Inr r),
      w\<lparr>calls := calls w + 1\<rparr>)"

text \<open>\<^verbatim>\<open>Response.raise_for_status\<close> raises for the status codes 400 to 599.\<close>

definition raise_for_status :: "response \<Rightarrow> error + response" where
  "raise_for_status r =
     (if 400 \<le> status_code r \<and> status_code r < 600 then Inl (HTTPError (status_code r))
      else Inr r)"

text \<open>The body of the \<^verbatim>\<open>try\<close> block: the request, then the status check.\<close>

definition attempt_result :: "outcome \<Rightarrow> error + response" where
  "attempt_result out = (case out of Raises e \<Rightarrow> Inl e | Replies r \<Rightarrow> raise_for_status r)"

definition try_get :: "env \<Rightarrow> request \<Rightarrow> world \<Rightarrow> (error + response) \<times> world" where
  "try_get E rq w =
     (case requests_get E rq w of
        (Inl e, w') \<Rightarrow> (Inl e, w')
      | (Inr r, w') \<Rightarrow> (raise_for_status r, w'))"

definition time_sleep :: "world \<Rightarrow> world" where
  "time_sleep w = w\<lparr>sleeps := sleeps w + 1\<rparr>"

text \<open>
  The loop \<^verbatim>\<open>for attempt in range(1, retries + 1)\<close>, entered at \<open>attempt\<close>.  When the
  range is empty the final \<^verbatim>\<open>raise last_err\<close> raises \<^verbatim>\<open>None\<close>, a \<^verbatim>\<open>TypeError\<close>.
\<close>

function safe_get_from ::
  "env \<Rightarrow> request \<Rightarrow> nat \<Rightarrow> nat \<Rightarrow> error option \<Rightarrow> world \<Rightarrow> (error + response) \<times> world"
where
  "safe_get_from E rq retries attempt last_err w =
     (if retries < attempt then
        ((case last_err of None \<Rightarrow> Inl TypeError | Some e \<Rightarrow> Inl e), w)
      else
        (case try_get E rq w of
           (Inr r, w') \<Rightarrow> (Inr r, w')
         | (Inl e, w') \<Rightarrow>
             if e = ReadTimeout then
               (if attempt = retries then (Inl e, w')
                else safe_get_from E rq retries (attempt + 1) (Some e) (time_sleep w'))
             else (Inl e, w')))"
  by pat_completeness auto
termination
  by (relation "measure (\<lambda>(E, rq, retries, attempt, last_err, w). retries + 1 - attempt)") auto

declare safe_get_from.simps [simp del]

text \<open>\<^verbatim>\<open>safe_get(url, params)\<close> with the defaults \<^verbatim>\<open>retries=3, sleep_s=2.0\<close>.\<close>

definition safe_get :: "env \<Rightarrow> request \<Rightarrow> world \<Rightarrow> (error + response) \<times> world" where
  "safe_get E rq w = safe_get_from E rq 3 1 None w"


section \<open>Category resolver: \<^verbatim>\<open>fetch_category_map\<close>\<close>

text \<open>\<^verbatim>\<open>r.json()\<close> raises when the body is not JSON.\<close>

definition json_of :: "response \<Rightarrow> error + json" where
  "json_of r = (case body r of None \<Rightarrow> Inl JSONDecodeError | Some j \<Rightarrow> Inr j)"

text \<open>The body of the loop \<^verbatim>\<open>for c in data\<close>.\<close>

definition add_category :: "pylib \<Rightarrow> catmap \<Rightarrow> json \<Rightarrow> error + catmap" where
  "add_category lib cat_map c =
     bind (dict_get c ''id'' JNull) (\<lambda>cid.
     bind (dict_get c ''name'' JNull) (\<lambda>name.
       if cid \<noteq> JNull \<and> name \<noteq> JNull then
         bind (py_int lib cid) (\<lambda>i. Inr (dict_set cat_map i (py_str lib name)))
       else Inr cat_map))"

text \<open>
  The loop \<^verbatim>\<open>while True\<close>, entered with the table and the page number reached.  It
  ends on a page that is falsy or on an exception; no result (\<open>None\<close>) means
  that it runs forever.
\<close>

partial_function (option) fetch_category_loop ::
  "pylib \<Rightarrow> env \<Rightarrow> catmap \<Rightarrow> int \<Rightarrow> world \<Rightarrow> ((error + catmap) \<times> world) option"
where
  "fetch_category_loop lib E cat_map pg w =
     (case safe_get E \<lparr>url = API_CATS, per_page = PER_PAGE, page = pg\<rparr> w of
        (Inl e, w') \<Rightarrow> Some (Inl e, w')
      | (Inr r, w') \<Rightarrow>
          (case json_of r of
             Inl e \<Rightarrow> Some (Inl e, w')
           | Inr data \<Rightarrow>
               if \<not> truthy data then Some (Inr cat_map, w')
               else
                 (case bind (py_iter data) (\<lambda>cs. fold_err (add_category lib) cs cat_map) of
                    Inl e \<Rightarrow> Some (Inl e, w')
                  | Inr cat_map' \<Rightarrow> fetch_category_loop lib E cat_map' (pg + 1) w')))"

definition fetch_category_map ::
  "pylib \<Rightarrow> env \<Rightarrow> world \<Rightarrow> ((error + catmap) \<times> world) option" where
  "fetch_category_map lib E w = fetch_category_loop lib E [] 1 w"


subsection \<open>What the resolver is to compute\<close>

text \<open>
  The pair an entry brings to the table: its id and its name when it has both.
  An entry is well formed when it is an object whose id, if it has one, is an
  integer.
\<close>

definition entry_of :: "pylib \<Rightarrow> json \<Rightarrow> (int \<times> string) option" where
  "entry_of lib c =
     (case c of
        JObj kvs \<Rightarrow>
          (case map_of kvs ''id'' of
             Some (JInt i) \<Rightarrow>
               (case map_of kvs ''name'' of
                  None \<Rightarrow> None
                | Some n \<Rightarrow> if n = JNull then None else Some (i, py_str lib n))
           | _ \<Rightarrow> None)
      | _ \<Rightarrow> None)"

definition wf_entry :: "json \<Rightarrow> bool" where
  "wf_entry c =
     (case c of
        JObj kvs \<Rightarrow>
          (case map_of kvs ''id'' of
             None \<Rightarrow> True | Some JNull \<Rightarrow> True | Some (JInt i) \<Rightarrow> True | Some _ \<Rightarrow> False)
      | _ \<Rightarrow> False)"

text \<open>The table of a sequence of entries: each entry with an id and a name sets its
  id to its name, the others are passed over.\<close>

definition table_of :: "pylib \<Rightarrow> json list \<Rightarrow> catmap" where
  "table_of lib es =
     foldl (\<lambda>m c. case entry_of lib c of None \<Rightarrow> m | Some (i, n) \<Rightarrow> dict_set m i n) [] es"

text \<open>The \<open>n\<close>-th request of the process, when it asks for page \<open>pg\<close> of the
  categories at the fixed page size, is answered with the JSON body \<open>data\<close>.\<close>

definition serves :: "env \<Rightarrow> nat \<Rightarrow> int \<Rightarrow> json \<Rightarrow> bool" where
  "serves E n pg data =
     (\<exists>r. net E n \<lparr>url = API_CATS, per_page = PER_PAGE, page = pg\<rparr> = Replies r
          \<and> raise_for_status r = Inr r \<and> body r = Some data)"

section \<open>Event normalizer: \<^verbatim>\<open>parse_event\<close>\<close>

text \<open>The sentinel \<^verbatim>\<open>"\<endash>"\<close>, U+2013.\<close>

definition EN_DASH :: string where
  "EN_DASH = [CHR 0xE2, CHR 0x80, CHR 0x93]"

text \<open>The inner function \<^verbatim>\<open>to_iso\<close>: every exception gives \<^verbatim>\<open>None\<close>; \<^verbatim>\<open>strptime\<close> raises
  \<^verbatim>\<open>TypeError\<close> on anything but a \<^verbatim>\<open>str\<close>.\<close>

fun to_iso :: "pylib \<Rightarrow> json \<Rightarrow> string option" where
  "to_iso lib (JStr s) = map_option isoformat (strptime_Ymd lib s)"
| "to_iso lib _ = None"

definition parse_event :: "pylib \<Rightarrow> json \<Rightarrow> catmap \<Rightarrow> error + event" where
  "parse_event lib post cat_map =
     bind (dict_get post ''title'' JNull) (\<lambda>t.
     bind (dict_get (py_or t (JObj [])) ''rendered'' (JStr [])) (\<lambda>r.
     bind (strip_of (py_or r (JStr []))) (\<lambda>title.
     bind (dict_get post ''link'' (JStr [])) (\<lambda>l.
     bind (bind (dict_get post ''acf'' JNull) (\<lambda>a.
             if truthy a then Inr a
             else bind (dict_get post ''meta'' JNull) (\<lambda>m. Inr (py_or m (JObj []))))) (\<lambda>acf.
     bind (dict_get acf ''esemeny_kezdete'' JNull) (\<lambda>s.
     bind (dict_get acf ''esemeny_vege'' JNull) (\<lambda>e.
     bind (bind (dict_get acf ''helyszin_rovid_neve'' JNull) (\<lambda>h.
             if truthy h then Inr h
             else bind (dict_get acf ''esemeny_terkep'' JNull) (\<lambda>m.
                  bind (dict_get (py_or m (JObj [])) ''city'' JNull) (\<lambda>c.
                    Inr (py_or c (JStr EN_DASH)))))) (\<lambda>place.
     bind (dict_get post ''categories'' (JList [])) (\<lambda>cs.
     bind (py_iter (py_or cs (JList []))) (\<lambda>cat_ids.
     bind (map_err (\<lambda>cid. bind (py_int lib cid)
                              (\<lambda>i. Inr (cat_get cat_map i (py_str lib cid)))) cat_ids)
       (\<lambda>cat_names.
         Inr \<lparr>Esemeny_neve = title,
              Kezdete = to_iso lib s,
              Vege = to_iso lib e,
              Helyszin = place,
              Kategoria = (if cat_names \<noteq> [] then join '', '' cat_names else EN_DASH),
              Aloldal = py_or l (JStr [])\<rparr>)))))))))))"


subsection \<open>What the normalizer is to compute\<close>

text \<open>The value of a field of a record, \<^verbatim>\<open>None\<close> when the record has no such field or
  is no mapping.\<close>

definition field :: "json \<Rightarrow> string \<Rightarrow> json" where
  "field v k = (case v of JObj kvs \<Rightarrow> (case map_of kvs k of Some x \<Rightarrow> x | None \<Rightarrow> JNull)
                | _ \<Rightarrow> JNull)"

definition is_dict :: "json \<Rightarrow> bool" where
  "is_dict v = (case v of JObj kvs \<Rightarrow> True | _ \<Rightarrow> False)"

definition is_str :: "json \<Rightarrow> bool" where
  "is_str v = (case v of JStr s \<Rightarrow> True | _ \<Rightarrow> False)"

text \<open>The custom-field bag: \<^verbatim>\<open>acf\<close>, or \<^verbatim>\<open>meta\<close> when \<^verbatim>\<open>acf\<close> is missing or empty.\<close>

definition bag :: "json \<Rightarrow> json" where
  "bag post = (if truthy (field post ''acf'') then field post ''acf'' else field post ''meta'')"

definition category_ids :: "json \<Rightarrow> json list" where
  "category_ids post = (case py_iter (field post ''categories'') of Inr ids \<Rightarrow> ids | Inl e \<Rightarrow> [])"

text \<open>
  A record is well typed when it is a mapping and each field the normalizer
  reads is missing, falsy or of the type it is read at: the title a mapping
  whose rendered text is a string, the bag a mapping, the location (read when
  the short name of the place is missing) a mapping, the categories a
  collection of ids that \<^verbatim>\<open>int\<close> accepts.
\<close>

definition well_typed_post :: "pylib \<Rightarrow> json \<Rightarrow> bool" where
  "well_typed_post lib post =
     (is_dict post
      \<and> (truthy (field post ''title'') \<longrightarrow>
            is_dict (field post ''title'')
            \<and> (truthy (field (field post ''title'') ''rendered'') \<longrightarrow>
                  is_str (field (field post ''title'') ''rendered'')))
      \<and> (truthy (bag post) \<longrightarrow>
            is_dict (bag post)
            \<and> (\<not> truthy (field (bag post) ''helyszin_rovid_neve'')
                 \<and> truthy (field (bag post) ''esemeny_terkep'') \<longrightarrow>
                  is_dict (field (bag post) ''esemeny_terkep'')))
      \<and> (truthy (field post ''categories'') \<longrightarrow>
            (\<exists>ids. py_iter (field post ''categories'') = Inr ids)
            \<and> (\<forall>cid\<in>set (category_ids post). \<exists>i. py_int lib cid = Inr i)))"

text \<open>
  The event of a record, field by field as the design has it: the rendered
  title trimmed; the two dates parsed, absent when they do not parse; the place
  from the short name, else from the city of the location, else the sentinel;
  each category id translated through the table, an id without an entry
  standing as its own text, the sentinel when there is no id; the link.
\<close>

definition category_name :: "pylib \<Rightarrow> catmap \<Rightarrow> json \<Rightarrow> string" where
  "category_name lib cat_map cid =
     (case py_int lib cid of
        Inr i \<Rightarrow> (case map_of cat_map i of Some n \<Rightarrow> n | None \<Rightarrow> py_str lib cid)
      | Inl e \<Rightarrow> py_str lib cid)"

definition event_of :: "pylib \<Rightarrow> json \<Rightarrow> catmap \<Rightarrow> event" where
  "event_of lib post cat_map =
     \<lparr>Esemeny_neve =
        (case field (field post ''title'') ''rendered'' of JStr s \<Rightarrow> py_strip s | _ \<Rightarrow> []),
      Kezdete = to_iso lib (field (bag post) ''esemeny_kezdete''),
      Vege = to_iso lib (field (bag post) ''esemeny_vege''),
      Helyszin =
        (if truthy (field (bag post) ''helyszin_rovid_neve'')
         then field (bag post) ''helyszin_rovid_neve''
         else if truthy (field (field (bag post) ''esemeny_terkep'') ''city'')
         then field (field (bag post) ''esemeny_terkep'') ''city''
         else JStr EN_DASH),
      Kategoria =
        (if category_ids post = [] then EN_DASH
         else join '', '' (map (category_name lib cat_map) (category_ids post))),
      Aloldal = (if truthy (field post ''link'') then field post ''link'' else JStr [])\<rparr>"

section \<open>Cache store: \<^verbatim>\<open>save_cache\<close> and \<^verbatim>\<open>load_cache\<close>\<close>

text \<open>\<^verbatim>\<open>datetime.utcnow().isoformat()\<close>.\<close>

definition utcnow :: "env \<Rightarrow> world \<Rightarrow> string \<times> world" where
  "utcnow E w = (clock E (ticks w), w\<lparr>ticks := ticks w + 1\<rparr>)"

text \<open>\<^verbatim>\<open>CACHE_DIR.mkdir(parents=True, exist_ok=True)\<close>.\<close>

definition mkdir :: "env \<Rightarrow> world \<Rightarrow> (error + unit) \<times> world" where
  "mkdir E w =
     (case disk E (ios w) of
        Some f \<Rightarrow> (Inl OSError, w\<lparr>ios := ios w + 1\<rparr>)
      | None \<Rightarrow> (Inr (), w\<lparr>ios := ios w + 1, files := (files w)\<lparr>dir_exists := True\<rparr>\<rparr>))"

text \<open>\<^verbatim>\<open>path.write_text(json.dumps(doc))\<close>: the file is opened for writing, which
  truncates it, and written in place.\<close>

definition write_text ::
  "env \<Rightarrow> (fs \<Rightarrow> content option \<Rightarrow> fs) \<Rightarrow> json \<Rightarrow> world \<Rightarrow> (error + unit) \<times> world" where
  "write_text E put doc w =
     (case disk E (ios w) of
        None \<Rightarrow> (Inr (), w\<lparr>ios := ios w + 1, files := put (files w) (Some (Document doc))\<rparr>)
      | Some OpenFails \<Rightarrow> (Inl OSError, w\<lparr>ios := ios w + 1\<rparr>)
      | Some (WriteFails t) \<Rightarrow>
          (Inl OSError, w\<lparr>ios := ios w + 1, files := put (files w) (Some (Unparsable t))\<rparr>))"

definition put_cats :: "fs \<Rightarrow> content option \<Rightarrow> fs" where
  "put_cats f c = f\<lparr>CACHE_CATS := c\<rparr>"

definition put_posts :: "fs \<Rightarrow> content option \<Rightarrow> fs" where
  "put_posts f c = f\<lparr>CACHE_POSTS := c\<rparr>"

text \<open>\<^verbatim>\<open>json.dumps\<close> turns the keys of the table into text.\<close>

definition cat_map_doc :: "catmap \<Rightarrow> json" where
  "cat_map_doc cat_map = JObj (map (\<lambda>kv. (str_int (fst kv), JStr (snd kv))) cat_map)"

definition posts_doc :: "string \<Rightarrow> json \<Rightarrow> json" where
  "posts_doc now posts = JObj [(''fetched_at'', JStr (now @ ''Z'')), (''posts'', posts)]"

definition save_cache :: "env \<Rightarrow> catmap \<Rightarrow> json \<Rightarrow> world \<Rightarrow> (error + unit) \<times> world" where
  "save_cache E cat_map posts w =
     (case mkdir E w of
        (Inl e, w1) \<Rightarrow> (Inl e, w1)
      | (Inr _, w1) \<Rightarrow>
          (case write_text E put_cats (cat_map_doc cat_map) w1 of
             (Inl e, w2) \<Rightarrow> (Inl e, w2)
           | (Inr _, w2) \<Rightarrow>
               (case utcnow E w2 of
                  (now, w3) \<Rightarrow> write_text E put_posts (posts_doc now posts) w3)))"






section \<open>Fetch orchestrator: \<^verbatim>\<open>FetchWorker.run\<close>\<close>

definition emit :: "signal \<Rightarrow> world \<Rightarrow> world" where
  "emit s w = w\<lparr>emitted := emitted w @ [s]\<rparr>"

text \<open>\<^verbatim>\<open>r.headers.get(name, d)\<close>: the names of headers are compared without case.\<close>

definition header_get :: "pylib \<Rightarrow> response \<Rightarrow> string \<Rightarrow> json \<Rightarrow> json" where
  "header_get lib r name d =
     (case find (\<lambda>kv. py_lower lib (fst kv) = py_lower lib name) (headers r) of
        None \<Rightarrow> d
      | Some kv \<Rightarrow> JStr (snd kv))"

text \<open>\<^verbatim>\<open>posts.extend(data)\<close>: only a list has the method, and \<open>data\<close> must be iterable.\<close>

fun posts_extend :: "json \<Rightarrow> json \<Rightarrow> error + json" where
  "posts_extend (JList ps) data = bind (py_iter data) (\<lambda>xs. Inr (JList (ps @ xs)))"
| "posts_extend _ data = Inl AttributeError"

text \<open>\<^verbatim>\<open>[parse_event(p, cat_map) for p in data]\<close>.\<close>

definition parse_events :: "pylib \<Rightarrow> catmap \<Rightarrow> json \<Rightarrow> error + event list" where
  "parse_events lib cat_map data =
     bind (py_iter data) (map_err (\<lambda>p. parse_event lib p cat_map))"

text \<open>The loop \<^verbatim>\<open>for page in range(2, total_pages + 1)\<close>, over the pages still to fetch.\<close>

fun fetch_pages ::
  "pylib \<Rightarrow> env \<Rightarrow> catmap \<Rightarrow> int \<Rightarrow> int list \<Rightarrow> json \<Rightarrow> world \<Rightarrow> (error + json) \<times> world"
where
  "fetch_pages lib E cat_map total_pages [] posts w = (Inr posts, w)"
| "fetch_pages lib E cat_map total_pages (pg # pgs) posts w =
     (case safe_get E \<lparr>url = API_POSTS, per_page = PER_PAGE, page = pg\<rparr>
             (emit (Status (Posts pg)) w) of
        (Inl e, w1) \<Rightarrow> (Inl e, w1)
      | (Inr r2, w1) \<Rightarrow>
          (case bind (json_of r2) (\<lambda>data.
                bind (posts_extend posts data) (\<lambda>posts'.
                bind (parse_events lib cat_map data) (\<lambda>ev2. Inr (posts', ev2)))) of
             Inl e \<Rightarrow> (Inl e, w1)
           | Inr (posts', ev2) \<Rightarrow>
               fetch_pages lib E cat_map total_pages pgs posts'
                 (emit (PageEvents ev2) (emit (Progress pg total_pages) w1))))"

text \<open>The end of the \<^verbatim>\<open>try\<close> block: the timestamp, \<^verbatim>\<open>save_cache\<close>, the signal
  \<^verbatim>\<open>finished\<close>.\<close>

definition persist :: "env \<Rightarrow> catmap \<Rightarrow> json \<Rightarrow> world \<Rightarrow> (error + unit) \<times> world" where
  "persist E cat_map posts w =
     (case utcnow E w of
        (now, w1) \<Rightarrow>
          (case save_cache E cat_map posts w1 of
             (Inl e, w2) \<Rightarrow> (Inl e, w2)
           | (Inr _, w2) \<Rightarrow> (Inr (), emit (Finished cat_map posts (now @ ''Z'')) w2)))"

text \<open>The body of the \<^verbatim>\<open>try\<close> block of \<^verbatim>\<open>run\<close>.\<close>

definition run_body :: "pylib \<Rightarrow> env \<Rightarrow> world \<Rightarrow> ((error + unit) \<times> world) option" where
  "run_body lib E w =
     (case fetch_category_map lib E (emit (Status Categories) w) of
        None \<Rightarrow> None
      | Some (Inl e, w1) \<Rightarrow> Some (Inl e, w1)
      | Some (Inr cat_map, w1) \<Rightarrow>
          Some
            (case safe_get E \<lparr>url = API_POSTS, per_page = PER_PAGE, page = 1\<rparr>
                    (emit (Status (Posts 1)) w1) of
               (Inl e, w2) \<Rightarrow> (Inl e, w2)
             | (Inr r, w2) \<Rightarrow>
                 (case bind (json_of r) (\<lambda>posts.
                       bind (py_int lib (header_get lib r ''X-WP-TotalPages'' (JInt 1)))
                         (\<lambda>total_pages.
                       bind (parse_events lib cat_map posts) (\<lambda>ev.
                         Inr (posts, total_pages, ev)))) of
                    Inl e \<Rightarrow> (Inl e, w2)
                  | Inr (posts, total_pages, ev) \<Rightarrow>
                      (case fetch_pages lib E cat_map total_pages [2..total_pages] posts
                              (emit (PageEvents ev) (emit (Progress 1 total_pages) w2)) of
                         (Inl e, w3) \<Rightarrow> (Inl e, w3)
                       | (Inr posts', w3) \<Rightarrow> persist E cat_map posts' w3))))"

text \<open>\<^verbatim>\<open>run\<close>: any exception of the body becomes the signal \<^verbatim>\<open>failed\<close>.\<close>

definition run :: "pylib \<Rightarrow> env \<Rightarrow> world \<Rightarrow> world option" where
  "run lib E w =
     (case run_body lib E w of
        None \<Rightarrow> None
      | Some (Inl e, w') \<Rightarrow> Some (emit (Failed e) w')
      | Some (Inr _, w') \<Rightarrow> Some w')"

subsection \<open>What the server does for a run\<close>

text \<open>
  From its \<open>n\<close>-th request on, the process asks for page \<open>pg\<close> of the posts at the
  fixed page size: \<open>t\<close> attempts time out, fewer than three, and the next one is
  answered with the response \<open>r\<close>, which passes the status check and whose body
  is the JSON list of the records \<open>ps\<close>.
\<close>

definition answers :: "env \<Rightarrow> nat \<Rightarrow> nat \<Rightarrow> int \<Rightarrow> response \<Rightarrow> json list \<Rightarrow> bool" where
  "answers E n t pg r ps =
     (t < 3
      \<and> (\<forall>i<t. net E (n + i) \<lparr>url = API_POSTS, per_page = PER_PAGE, page = pg\<rparr>
                   = Raises ReadTimeout)
      \<and> net E (n + t) \<lparr>url = API_POSTS, per_page = PER_PAGE, page = pg\<rparr> = Replies r
      \<and> raise_for_status r = Inr r \<and> body r = Some (JList ps))"


section \<open>The consumer: \<^verbatim>\<open>App\<close>\<close>

text \<open>
  The state of the window that the slots below read or write: the two data
  frames (their rows, in order), what the table shows, the category list and
  its selection, the filter controls and the flags.  Labels, the spinner and
  the text of cells are presentation and are left out.
\<close>

record app =
  df_all :: "event list"
  df_view :: "event list"
  table :: "event list"
  list_cats :: "string list"
  selected :: "string list"
  date_from :: date
  date_to :: date
  txt_search :: string
  chk_live_filter :: bool
  loading :: bool
  loading_total_pages :: int
  loading_current_page :: int
  controls_enabled :: bool
  btn_export_enabled :: bool

text \<open>The inner function \<^verbatim>\<open>to_date\<close> of \<^verbatim>\<open>apply_filters\<close>, on a cell of the column
  \<^verbatim>\<open>Kezdete\<close>: \<^verbatim>\<open>str(None)\<close> is no date.\<close>

definition to_date :: "pylib \<Rightarrow> string option \<Rightarrow> date option" where
  "to_date lib s = (case s of None \<Rightarrow> None | Some t \<Rightarrow> fromisoformat lib t)"

text \<open>The inner function \<^verbatim>\<open>has_any\<close>.\<close>

definition has_any :: "string list \<Rightarrow> string \<Rightarrow> bool" where
  "has_any sel cat_str =
     (let parts = map py_strip (split_on CHR '','' cat_str)
      in list_ex (\<lambda>s. s \<in> set parts) sel)"

text \<open>The key of \<^verbatim>\<open>sort_values(by=["Kezdete", "Esem\'eny neve"])\<close>; the rows sorted have a
  start.\<close>

definition sort_by :: "event \<Rightarrow> string \<times> string" where
  "sort_by e = ((case Kezdete e of None \<Rightarrow> [] | Some s \<Rightarrow> s), Esemeny_neve e)"

text \<open>The end of \<^verbatim>\<open>apply_filters\<close>, from the sort on: a stable sort, then the view
  and the table are replaced.\<close>

definition show_sorted :: "app \<Rightarrow> event list \<Rightarrow> app" where
  "show_sorted st df =
     (let df' = (if df \<noteq> [] then sort_key sort_by df else df)
      in st\<lparr>df_view := df', table := df',
            btn_export_enabled := (df' \<noteq> [] \<and> \<not> loading st)\<rparr>)"

text \<open>
  \<^verbatim>\<open>apply_filters\<close>.  The first component is the exception the slot raises, if
  any; the state is then the one it had reached.  \<^verbatim>\<open>Series.str.contains(q)\<close>
  compiles \<open>q\<close> as a regular expression and searches each cell.
\<close>

definition apply_filters :: "pylib \<Rightarrow> app \<Rightarrow> error option \<times> app" where
  "apply_filters lib st =
     (if loading st \<and> \<not> chk_live_filter st then
        (None, st\<lparr>df_view := [], btn_export_enabled := False\<rparr>)
      else if df_all st = [] then
        (None, st\<lparr>df_view := [], table := (if \<not> loading st then [] else table st),
                  btn_export_enabled := False\<rparr>)
      else
        (let df1 = filter (\<lambda>e. to_date lib (Kezdete e) \<noteq> None) (df_all st);
             df2 = (if df1 \<noteq> [] then
                      filter (\<lambda>e. case to_date lib (Kezdete e) of
                                     None \<Rightarrow> False
                                   | Some d \<Rightarrow> date_from st \<le> d \<and> d \<le> date_to st) df1
                    else df1);
             df3 = (if selected st \<noteq> [] \<and> df2 \<noteq> [] then
                      filter (\<lambda>e. has_any (selected st) (Kategoria e)) df2
                    else df2);
             q = py_lower lib (py_strip (txt_search st))
         in if q \<noteq> [] \<and> df3 \<noteq> [] then
              (case re_compile lib q of
                 None \<Rightarrow> (Some ReError, st)
               | Some search \<Rightarrow>
                   (None,
                    show_sorted st
                      (filter (\<lambda>e. search (py_lower lib (Esemeny_neve e))
                                   \<or> search (py_lower lib (py_str lib (Helyszin e)))) df3)))
            else (None, show_sorted st df3)))"

text \<open>
  The query of the window on a collection of events: \<^verbatim>\<open>apply_filters\<close> run with the
  collection as \<open>df_all\<close> and the criteria of the window, and the view it leaves
  in \<open>df_view\<close>; an exception of \<^verbatim>\<open>apply_filters\<close> is the error.
\<close>

definition query :: "pylib \<Rightarrow> app \<Rightarrow> event list \<Rightarrow> error + event list" where
  "query lib st evs =
     (case apply_filters lib (st\<lparr>df_all := evs\<rparr>) of
        (Some e, st') \<Rightarrow> Inl e
      | (None, st') \<Rightarrow> Inr (df_view st'))"

subsection \<open>What the query is to return\<close>

text \<open>The query as it is run: the search text stripped and in lower case.\<close>

definition needle :: "pylib \<Rightarrow> app \<Rightarrow> string" where
  "needle lib st = py_lower lib (py_strip (txt_search st))"

text \<open>The start of the event parses to a date within the two bounds.\<close>

definition in_range :: "pylib \<Rightarrow> app \<Rightarrow> event \<Rightarrow> bool" where
  "in_range lib st e =
     (case to_date lib (Kezdete e) of
        None \<Rightarrow> False
      | Some d \<Rightarrow> date_from st \<le> d \<and> d \<le> date_to st)"

text \<open>No category is selected, or one of the names between the commas of the
  event, stripped, is a selected name.\<close>

definition in_selected :: "app \<Rightarrow> event \<Rightarrow> bool" where
  "in_selected st e =
     (selected st = []
      \<or> (\<exists>s\<in>set (selected st). \<exists>p\<in>set (split_on CHR '','' (Kategoria e)). py_strip p = s))"

text \<open>The query is empty, or it is a substring of the title or of the place, both
  in lower case.\<close>

definition has_text :: "pylib \<Rightarrow> app \<Rightarrow> event \<Rightarrow> bool" where
  "has_text lib st e =
     (needle lib st = []
      \<or> sublist (needle lib st) (py_lower lib (Esemeny_neve e))
      \<or> sublist (needle lib st) (py_lower lib (py_str lib (Helyszin e))))"

text \<open>The events the query is to keep.\<close>

definition query_keeps :: "pylib \<Rightarrow> app \<Rightarrow> event \<Rightarrow> bool" where
  "query_keeps lib st e = (in_range lib st e \<and> in_selected st e \<and> has_text lib st e)"

text \<open>The key the result is to be sorted by: the start as a date, then the title.\<close>

definition date_key :: "pylib \<Rightarrow> event \<Rightarrow> date \<times> string" where
  "date_key lib e = (the (to_date lib (Kezdete e)), Esemeny_neve e)"

text \<open>The events whose start, when they have one, is an ISO date text
  \<^verbatim>\<open>dddd-dd-dd\<close>, as the normalizer writes it.\<close>

definition iso_start :: "event \<Rightarrow> bool" where
  "iso_start e = (case Kezdete e of None \<Rightarrow> True | Some s \<Rightarrow> iso_shape s)"

text \<open>\<^verbatim>\<open>refresh_from_api\<close>: the reset of the window; the worker is started after it.\<close>

definition refresh_from_api :: "app \<Rightarrow> app" where
  "refresh_from_api st =
     (if loading st then st
      else st\<lparr>loading := True, loading_total_pages := 0, loading_current_page := 0,
              df_all := [], df_view := [], table := [], list_cats := [], selected := [],
              controls_enabled := False, btn_export_enabled := False\<rparr>)"

definition on_progress :: "int \<Rightarrow> int \<Rightarrow> app \<Rightarrow> app" where
  "on_progress pg tot st = st\<lparr>loading_current_page := pg, loading_total_pages := tot\<rparr>"

text \<open>The rows \<^verbatim>\<open>on_page_events\<close> keeps: \<^verbatim>\<open>Kezdete\<close> is neither missing nor empty.\<close>

definition has_start :: "event \<Rightarrow> bool" where
  "has_start e = (Kezdete e \<noteq> None \<and> Kezdete e \<noteq> Some [])"

text \<open>The names \<^verbatim>\<open>on_page_events\<close> adds to the category list.\<close>

definition new_cats :: "string list \<Rightarrow> event list \<Rightarrow> string list" where
  "new_cats existing df_new =
     sort (remdups (filter (\<lambda>c. c \<noteq> [] \<and> c \<notin> set existing)
       (map py_strip (concat (map (\<lambda>e. split_on CHR '','' (Kategoria e)) df_new)))))"

definition on_page_events :: "pylib \<Rightarrow> event list \<Rightarrow> app \<Rightarrow> error option \<times> app" where
  "on_page_events lib events_list st =
     (if events_list = [] then (None, st)
      else
        (let df_new = filter has_start events_list
         in if df_new = [] then (None, st)
            else
              (let st1 = st\<lparr>df_all := df_all st @ df_new,
                            list_cats := list_cats st @ new_cats (list_cats st) df_new\<rparr>
               in if \<not> chk_live_filter st1 then (None, st1\<lparr>table := table st1 @ df_new\<rparr>)
                  else apply_filters lib st1)))"

definition on_finished :: "pylib \<Rightarrow> app \<Rightarrow> error option \<times> app" where
  "on_finished lib st =
     (case apply_filters lib
             (st\<lparr>loading := False, controls_enabled := True,
                 btn_export_enabled := (df_view st \<noteq> [])\<rparr>) of
        (Some e, st') \<Rightarrow> (Some e, st')
      | (None, st') \<Rightarrow> (None, st'\<lparr>btn_export_enabled := (df_view st' \<noteq> [])\<rparr>))"

definition on_failed :: "app \<Rightarrow> app" where
  "on_failed st = st\<lparr>loading := False, controls_enabled := True, btn_export_enabled := False\<rparr>"

text \<open>
  The slot a signal of the worker runs.  An exception raised in a slot is
  reported and the event loop goes on, with the state the slot had reached.
\<close>

fun deliver :: "pylib \<Rightarrow> signal \<Rightarrow> app \<Rightarrow> error option \<times> app" where
  "deliver lib (Progress pg tot) st = (None, on_progress pg tot st)"
| "deliver lib (Status ph) st = (None, st)"
| "deliver lib (PageEvents evs) st = on_page_events lib evs st"
| "deliver lib (Finished cat_map posts fetched_at) st = on_finished lib st"
| "deliver lib (Failed e) st = (None, on_failed st)"

definition consume :: "pylib \<Rightarrow> signal list \<Rightarrow> app \<Rightarrow> app" where
  "consume lib sigs st = foldl (\<lambda>s sig. snd (deliver lib sig s)) st sigs"

text \<open>The batches among the signals, in order.\<close>

fun batches :: "signal list \<Rightarrow> event list list" where
  "batches [] = []"
| "batches (PageEvents evs # sigs) = evs # batches sigs"
| "batches (_ # sigs) = batches sigs"


section \<open>Sample worlds\<close>

text \<open>Concrete servers, disks and inputs, on which the theorems below are run.\<close>

definition w0 :: world where
  "w0 = \<lparr>calls = 0, sleeps = 0, ios = 0, ticks = 0, emitted = [],
          files = \<lparr>dir_exists = False, CACHE_CATS = None, CACHE_POSTS = None\<rparr>\<rparr>"

definition empty_page :: response where
  "empty_page = \<lparr>status_code = 200, headers = [], body = Some (JList [])\<rparr>"

definition cats_rq :: "int \<Rightarrow> request" where
  "cats_rq p = \<lparr>url = API_CATS, per_page = PER_PAGE, page = p\<rparr>"

definition posts_rq :: "int \<Rightarrow> request" where
  "posts_rq p = \<lparr>url = API_POSTS, per_page = PER_PAGE, page = p\<rparr>"

text \<open>A server that lets the first two requests time out and answers from then on.\<close>

definition E_slow :: env where
  "E_slow = \<lparr>net = (\<lambda>n rq. if n < 2 then Raises ReadTimeout else Replies empty_page),
             disk = (\<lambda>n. None), clock = (\<lambda>n. ''2024-09-01T10:00:00'')\<rparr>"

text \<open>Two replies without a body: \<^verbatim>\<open>304 Not Modified\<close> and \<^verbatim>\<open>404 Not Found\<close>.\<close>

definition not_modified :: response where
  "not_modified = \<lparr>status_code = 304, headers = [], body = None\<rparr>"

definition not_found :: response where
  "not_found = \<lparr>status_code = 404, headers = [], body = None\<rparr>"

text \<open>A server that answers every request with the reply \<open>P\<close>.\<close>

definition E_always :: "response \<Rightarrow> env" where
  "E_always P = \<lparr>net = (\<lambda>n rq. Replies P), disk = (\<lambda>n. None),
                 clock = (\<lambda>n. ''2024-09-01T10:00:00'')\<rparr>"

text \<open>A library whose unmodelled cases all fail; no example below reaches one.\<close>

definition lib0 :: pylib where
  "lib0 = \<lparr>lower_other = (\<lambda>s. s), int_other = (\<lambda>s. None), str_other = (\<lambda>v. []),
           strptime_other = (\<lambda>s. None), fromisoformat_other = (\<lambda>s. None),
           re_other = (\<lambda>p. None)\<rparr>"

definition wine_fest :: event where
  "wine_fest = \<lparr>Esemeny_neve = ''Wine Fest'', Kezdete = Some ''2024-09-01'', Vege = None,
                Helyszin = JStr ''Eger'', Kategoria = ''Bor, Fesztival'', Aloldal = JStr []\<rparr>"

definition fair :: event where
  "fair = \<lparr>Esemeny_neve = ''Fair'', Kezdete = Some ''2024-10-01'', Vege = None,
           Helyszin = JStr ''Sopron'', Kategoria = ''Vasar'', Aloldal = JStr []\<rparr>"

definition undated :: event where
  "undated = \<lparr>Esemeny_neve = ''Undated'', Kezdete = None, Vege = None,
              Helyszin = JStr EN_DASH, Kategoria = EN_DASH, Aloldal = JStr []\<rparr>"

text \<open>A window that shows one event and waits, its filters from 2024-09-15 to
  2024-12-31.\<close>

definition app0 :: app where
  "app0 = \<lparr>df_all = [wine_fest], df_view = [], table = [], list_cats = [], selected = [],
            date_from = (2024, 9, 15), date_to = (2024, 12, 31), txt_search = [],
            chk_live_filter = False, loading = False, loading_total_pages = 0,
            loading_current_page = 0, controls_enabled = True,
            btn_export_enabled = False\<rparr>"

text \<open>A server with no category that answers every request for posts with the
  page \<open>P\<close>; the disk never fails.\<close>

definition one_page_server :: "response \<Rightarrow> env" where
  "one_page_server P =
     \<lparr>net = (\<lambda>n rq. Replies (if url rq = API_CATS then empty_page else P)),
      disk = (\<lambda>n. None), clock = (\<lambda>n. ''2024-09-01T10:00:00'')\<rparr>"

text \<open>A page of posts with a single record that has no field at all, and the event
  it is normalized to.\<close>

definition bare_page :: response where
  "bare_page = \<lparr>status_code = 200, headers = [], body = Some (JList [JObj []])\<rparr>"

definition nameless :: event where
  "nameless = \<lparr>Esemeny_neve = [], Kezdete = None, Vege = None, Helyszin = JStr EN_DASH,
               Kategoria = EN_DASH, Aloldal = JStr []\<rparr>"

text \<open>A server with no category and two pages of posts, of one and of two records
  without any field; the third request of the process times out.\<close>

definition first_of_two :: response where
  "first_of_two = \<lparr>status_code = 200, headers = [(''X-WP-TotalPages'', ''2'')],
                    body = Some (JList [JObj []])\<rparr>"

definition second_of_two :: response where
  "second_of_two = \<lparr>status_code = 200, headers = [(''X-WP-TotalPages'', ''2'')],
                     body = Some (JList [JObj [], JObj []])\<rparr>"

definition E_two :: env where
  "E_two =
     \<lparr>net = (\<lambda>n rq. if url rq = API_CATS then Replies empty_page
                      else if page rq = 1 then Replies first_of_two
                      else if n = 2 then Raises ReadTimeout
                      else Replies second_of_two),
      disk = (\<lambda>n. None), clock = (\<lambda>n. ''2024-09-01T10:00:00'')\<rparr>"

text \<open>A page of posts that carries a total that is not a number.\<close>

definition odd_total_page :: response where
  "odd_total_page =
     \<lparr>status_code = 200, headers = [(''X-WP-TotalPages'', ''abc'')], body = Some (JList [])\<rparr>"


text \<open>A snapshot on disk, the world that has it, and a disk on which the third
  file operation from now fails as the file is opened.\<close>

definition old_snapshot :: fs where
  "old_snapshot =
     \<lparr>dir_exists = True,
      CACHE_CATS = Some (Document (JObj [(''1'', JStr ''Bor'')])),
      CACHE_POSTS = Some (Document (JObj [(''fetched_at'', JStr ''2024-08-01T08:00:00Z''),
                                          (''posts'', JList [])]))\<rparr>"

definition w_cached :: world where
  "w_cached = w0\<lparr>files := old_snapshot\<rparr>"

definition E_third_fails :: env where
  "E_third_fails = (one_page_server bare_page)\<lparr>disk := (\<lambda>n. if n = 2 then Some OpenFails else None)\<rparr>"


text \<open>A server with 237 categories of distinct ids, in pages of 100, 100 and 37
  entries, and nothing from page 4 on.\<close>

definition cat_entry :: "nat \<Rightarrow> json" where
  "cat_entry i = JObj [(''id'', JInt (int i)), (''name'', JStr ''Kategoria'')]"

definition cat_page :: "int \<Rightarrow> json list" where
  "cat_page pg =
     (if pg = 1 then map cat_entry [0..<100]
      else if pg = 2 then map cat_entry [100..<200]
      else if pg = 3 then map cat_entry [200..<237]
      else [])"

definition E_cats :: env where
  "E_cats =
     \<lparr>net = (\<lambda>n rq. Replies \<lparr>status_code = 200, headers = [],
                                body = Some (JList (cat_page (page rq)))\<rparr>),
      disk = (\<lambda>n. None), clock = (\<lambda>n. ''2024-09-01T10:00:00'')\<rparr>"


text \<open>A record of the shape the API sends, with two category ids of which the
  table knows one.\<close>

definition wine_post :: json where
  "wine_post =
     JObj [(''title'', JObj [(''rendered'', JStr '' Wine Fest '')]),
           (''link'', JStr ''https://example.org/wine''),
           (''categories'', JList [JInt 7, JInt 3]),
           (''acf'', JObj [(''esemeny_kezdete'', JStr ''20240901''),
                           (''esemeny_vege'', JStr ''2024-09-03''),
                           (''helyszin_rovid_neve'', JStr ''Eger'')])]"


text \<open>The window with the whole year as range, and with two selected categories
  and a search text besides.\<close>

definition app_year :: app where
  "app_year = app0\<lparr>date_from := (2024, 1, 1)\<rparr>"

definition app_search :: app where
  "app_search = app_year\<lparr>selected := [''Fesztival'', ''Vasar''], txt_search := '' EGER ''\<rparr>"

text \<open>The window with a blank as search text.\<close>

definition app_blank :: app where
  "app_blank = app0\<lparr>df_all := [fair], txt_search := '' ''\<rparr>"

text \<open>The window with an opening parenthesis as search text.\<close>

definition app_paren :: app where
  "app_paren = app0\<lparr>df_all := [fair], txt_search := ''(''\<rparr>"


section \<open>Properties of the retrieval layer\<close>

lemma try_get_eq:
  "try_get E rq w = (attempt_result (net E (calls w) rq), w\<lparr>calls := calls w + 1\<rparr>)"
  by (simp add: try_get_def requests_get_def attempt_result_def split: outcome.splits)

lemma safe_get_from_returns:
  assumes "attempt \<le> retries" and "attempt_result (net E (calls w) rq) = Inr r"
  shows "safe_get_from E rq retries attempt last_err w = (Inr r, w\<lparr>calls := calls w + 1\<rparr>)"
  using assms by (subst safe_get_from.simps) (simp add: try_get_eq)

lemma safe_get_from_fails:
  assumes "attempt \<le> retries" and "attempt_result (net E (calls w) rq) = Inl e"
    and "e \<noteq> ReadTimeout"
  shows "safe_get_from E rq retries attempt last_err w = (Inl e, w\<lparr>calls := calls w + 1\<rparr>)"
  using assms by (subst safe_get_from.simps) (simp add: try_get_eq)

lemma safe_get_from_last_timeout:
  assumes "net E (calls w) rq = Raises ReadTimeout"
  shows "safe_get_from E rq retries retries last_err w
           = (Inl ReadTimeout, w\<lparr>calls := calls w + 1\<rparr>)"
  using assms by (subst safe_get_from.simps) (simp add: try_get_eq attempt_result_def)

lemma safe_get_from_retries:
  assumes "attempt < retries" and "net E (calls w) rq = Raises ReadTimeout"
  shows "safe_get_from E rq retries attempt last_err w
           = safe_get_from E rq retries (attempt + 1) (Some ReadTimeout)
               (w\<lparr>calls := calls w + 1, sleeps := sleeps w + 1\<rparr>)"
  using assms
  by (simp add: safe_get_from.simps [of E rq retries attempt last_err w] try_get_eq
      attempt_result_def time_sleep_def)

lemma safe_get_from_skip:
  assumes "attempt + k \<le> retries"
    and "\<forall>i<k. net E (calls w + i) rq = Raises ReadTimeout"
  shows "safe_get_from E rq retries attempt last_err w
           = safe_get_from E rq retries (attempt + k)
               (if k = 0 then last_err else Some ReadTimeout)
               (w\<lparr>calls := calls w + k, sleeps := sleeps w + k\<rparr>)"
  using assms
proof (induction k arbitrary: attempt last_err w)
  case 0
  then show ?case by simp
next
  case (Suc k)
  let ?w = "w\<lparr>calls := calls w + 1, sleeps := sleeps w + 1\<rparr>"
  from Suc.prems(2) [rule_format, of 0] have first: "net E (calls w) rq = Raises ReadTimeout"
    by simp
  have rest: "\<forall>i<k. net E (calls ?w + i) rq = Raises ReadTimeout"
  proof (intro allI impI)
    fix i assume "i < k"
    with Suc.prems(2) [rule_format, of "Suc i"] show "net E (calls ?w + i) rq = Raises ReadTimeout"
      by simp
  qed
  from Suc.prems have "attempt < retries" and "attempt + 1 + k \<le> retries"
    by simp_all
  then show ?case
    using safe_get_from_retries [OF \<open>attempt < retries\<close> first, of last_err]
      Suc.IH [OF \<open>attempt + 1 + k \<le> retries\<close> rest, of "Some ReadTimeout"]
    by simp
qed

lemma safe_get_after_timeouts:
  assumes "\<forall>i<k. net E (calls w + i) rq = Raises ReadTimeout"
  shows "(k < 3 \<and> attempt_result (net E (calls w + k) rq) = Inr r \<longrightarrow>
            safe_get E rq w
              = (Inr r, w\<lparr>calls := calls w + (k + 1), sleeps := sleeps w + k\<rparr>))
       \<and> (k < 3 \<and> attempt_result (net E (calls w + k) rq) = Inl e \<and> e \<noteq> ReadTimeout \<longrightarrow>
            safe_get E rq w
              = (Inl e, w\<lparr>calls := calls w + (k + 1), sleeps := sleeps w + k\<rparr>))
       \<and> (3 \<le> k \<longrightarrow>
            safe_get E rq w
              = (Inl ReadTimeout, w\<lparr>calls := calls w + 3, sleeps := sleeps w + 2\<rparr>))"
proof (intro conjI impI)
  let ?w = "w\<lparr>calls := calls w + k, sleeps := sleeps w + k\<rparr>"
  assume a: "k < 3 \<and> attempt_result (net E (calls w + k) rq) = Inr r"
  then have "1 + k \<le> (3::nat)" by simp
  from safe_get_from_skip [OF this assms, of None]
  have "safe_get E rq w
          = safe_get_from E rq 3 (1 + k) (if k = 0 then None else Some ReadTimeout) ?w"
    by (simp add: safe_get_def)
  also have "\<dots> = (Inr r, ?w\<lparr>calls := calls ?w + 1\<rparr>)"
    using a by (intro safe_get_from_returns) simp_all
  finally show "safe_get E rq w
      = (Inr r, w\<lparr>calls := calls w + (k + 1), sleeps := sleeps w + k\<rparr>)"
    by simp
next
  let ?w = "w\<lparr>calls := calls w + k, sleeps := sleeps w + k\<rparr>"
  assume a: "k < 3 \<and> attempt_result (net E (calls w + k) rq) = Inl e \<and> e \<noteq> ReadTimeout"
  then have "1 + k \<le> (3::nat)" by simp
  from safe_get_from_skip [OF this assms, of None]
  have "safe_get E rq w
          = safe_get_from E rq 3 (1 + k) (if k = 0 then None else Some ReadTimeout) ?w"
    by (simp add: safe_get_def)
  also have "\<dots> = (Inl e, ?w\<lparr>calls := calls ?w + 1\<rparr>)"
    using a by (intro safe_get_from_fails) simp_all
  finally show "safe_get E rq w
      = (Inl e, w\<lparr>calls := calls w + (k + 1), sleeps := sleeps w + k\<rparr>)"
    by simp
next
  let ?w = "w\<lparr>calls := calls w + 2, sleeps := sleeps w + 2\<rparr>"
  assume a: "3 \<le> k"
  with assms have two: "\<forall>i<2. net E (calls w + i) rq = Raises ReadTimeout"
    by simp
  from a assms [rule_format, of 2] have third: "net E (calls ?w) rq = Raises ReadTimeout"
    by simp
  have "1 + 2 \<le> (3::nat)" by simp
  from safe_get_from_skip [OF this two, of None]
  have "safe_get E rq w = safe_get_from E rq 3 3 (Some ReadTimeout) ?w"
    by (simp add: safe_get_def numeral_3_eq_3)
  also have "\<dots> = (Inl ReadTimeout, ?w\<lparr>calls := calls ?w + 1\<rparr>)"
    by (rule safe_get_from_last_timeout [OF third])
  finally show "safe_get E rq w
      = (Inl ReadTimeout, w\<lparr>calls := calls w + 3, sleeps := sleeps w + 2\<rparr>)"
    by simp
qed

text \<open>
  C4, as stated, fails on a status that is neither 2xx nor an error for
  \<^verbatim>\<open>raise_for_status\<close>: a reply \<^verbatim>\<open>304\<close> is returned as the response, nothing is raised.
\<close>

theorem status_304_is_returned:
  "net (E_always not_modified) (calls w0) (posts_rq 1) = Replies not_modified
   \<and> status_code not_modified = 304
   \<and> safe_get (E_always not_modified) (posts_rq 1) w0 = (Inr not_modified, w0\<lparr>calls := 1\<rparr>)"
proof -
  have "attempt_result (net (E_always not_modified) (calls w0 + 0) (posts_rq 1))
          = Inr not_modified"
    by (simp add: E_always_def attempt_result_def raise_for_status_def not_modified_def)
  with safe_get_after_timeouts [of 0 "E_always not_modified" w0 "posts_rq 1" not_modified TypeError]
  have "safe_get (E_always not_modified) (posts_rq 1) w0 = (Inr not_modified, w0\<lparr>calls := 1\<rparr>)"
    by (simp add: w0_def)
  then show ?thesis
    by (simp add: E_always_def not_modified_def)
qed

text \<open>
  C4, amended.  \<^verbatim>\<open>safe_get\<close> retries on \<^verbatim>\<open>ReadTimeout\<close> only, at most three attempts,
  one sleep between two attempts.  Let the first \<open>k\<close> attempts time out.  If
  \<open>k < 3\<close> and the next attempt is answered with a status outside 400 to 599,
  that response is returned after exactly \<open>k + 1\<close> attempts (two timeouts and an
  answer: three attempts); if it is answered with a status from 400 to 599, the
  \<^verbatim>\<open>HTTPError\<close> of that status propagates from that attempt, and if the request
  raises anything but \<^verbatim>\<open>ReadTimeout\<close>, that error propagates from that attempt, in
  both cases with no further request and no sleep; if all three attempts time
  out, the third \<^verbatim>\<open>ReadTimeout\<close> propagates.
\<close>

theorem safe_get_retry_policy:
  assumes "\<forall>i<k. net E (calls w + i) rq = Raises ReadTimeout"
  shows "(k < 3 \<and> net E (calls w + k) rq = Replies r
            \<and> \<not> (400 \<le> status_code r \<and> status_code r < 600) \<longrightarrow>
            safe_get E rq w
              = (Inr r, w\<lparr>calls := calls w + (k + 1), sleeps := sleeps w + k\<rparr>))
       \<and> (k < 3 \<and> net E (calls w + k) rq = Replies r
            \<and> 400 \<le> status_code r \<and> status_code r < 600 \<longrightarrow>
            safe_get E rq w
              = (Inl (HTTPError (status_code r)),
                 w\<lparr>calls := calls w + (k + 1), sleeps := sleeps w + k\<rparr>))
       \<and> (k < 3 \<and> net E (calls w + k) rq = Raises e \<and> e \<noteq> ReadTimeout \<longrightarrow>
            safe_get E rq w
              = (Inl e, w\<lparr>calls := calls w + (k + 1), sleeps := sleeps w + k\<rparr>))
       \<and> (3 \<le> k \<longrightarrow>
            safe_get E rq w
              = (Inl ReadTimeout, w\<lparr>calls := calls w + 3, sleeps := sleeps w + 2\<rparr>))"
proof (intro conjI impI)
  assume "k < 3 \<and> net E (calls w + k) rq = Replies r
            \<and> \<not> (400 \<le> status_code r \<and> status_code r < 600)"
  then have "k < 3 \<and> attempt_result (net E (calls w + k) rq) = Inr r"
    by (simp add: attempt_result_def raise_for_status_def)
  with safe_get_after_timeouts [OF assms, of r e]
  show "safe_get E rq w = (Inr r, w\<lparr>calls := calls w + (k + 1), sleeps := sleeps w + k\<rparr>)"
    by blast
next
  assume "k < 3 \<and> net E (calls w + k) rq = Replies r
            \<and> 400 \<le> status_code r \<and> status_code r < 600"
  then have "k < 3 \<and> attempt_result (net E (calls w + k) rq) = Inl (HTTPError (status_code r))
               \<and> HTTPError (status_code r) \<noteq> ReadTimeout"
    by (simp add: attempt_result_def raise_for_status_def)
  with safe_get_after_timeouts [OF assms, of r "HTTPError (status_code r)"]
  show "safe_get E rq w
          = (Inl (HTTPError (status_code r)),
             w\<lparr>calls := calls w + (k + 1), sleeps := sleeps w + k\<rparr>)"
    by blast
next
  assume "k < 3 \<and> net E (calls w + k) rq = Raises e \<and> e \<noteq> ReadTimeout"
  then have "k < 3 \<and> attempt_result (net E (calls w + k) rq) = Inl e \<and> e \<noteq> ReadTimeout"
    by (simp add: attempt_result_def)
  with safe_get_after_timeouts [OF assms, of r e]
  show "safe_get E rq w = (Inl e, w\<lparr>calls := calls w + (k + 1), sleeps := sleeps w + k\<rparr>)"
    by blast
next
  assume "3 \<le> k"
  with safe_get_after_timeouts [OF assms, of r e]
  show "safe_get E rq w
          = (Inl ReadTimeout, w\<lparr>calls := calls w + 3, sleeps := sleeps w + 2\<rparr>)"
    by blast
qed

theorem safe_get_retry_policy_witness:
  "net E_slow (calls w0 + 0) (posts_rq 1) = Raises ReadTimeout
   \<and> net E_slow (calls w0 + 1) (posts_rq 1) = Raises ReadTimeout
   \<and> net E_slow (calls w0 + 2) (posts_rq 1) = Replies empty_page
   \<and> status_code empty_page = 200
   \<and> safe_get E_slow (posts_rq 1) w0 = (Inr empty_page, w0\<lparr>calls := 3, sleeps := 2\<rparr>)
   \<and> net (E_always not_found) (calls w0 + 0) (posts_rq 1) = Replies not_found
   \<and> status_code not_found = 404
   \<and> safe_get (E_always not_found) (posts_rq 1) w0 = (Inl (HTTPError 404), w0\<lparr>calls := 1\<rparr>)"
proof -
  have h: "\<forall>i<2. net E_slow (calls w0 + i) (posts_rq 1) = Raises ReadTimeout"
    by (simp add: E_slow_def w0_def)
  have ok: "net E_slow (calls w0 + 2) (posts_rq 1) = Replies empty_page"
    "status_code empty_page = 200"
    by (simp_all add: E_slow_def w0_def empty_page_def)
  have h0: "\<forall>i<0. net (E_always not_found) (calls w0 + i) (posts_rq 1) = Raises ReadTimeout"
    by simp
  have nf: "net (E_always not_found) (calls w0 + 0) (posts_rq 1) = Replies not_found"
    "status_code not_found = 404"
    by (simp_all add: E_always_def not_found_def)
  from safe_get_retry_policy [OF h, of empty_page ConnectionError] ok
  have a: "safe_get E_slow (posts_rq 1) w0 = (Inr empty_page, w0\<lparr>calls := 3, sleeps := 2\<rparr>)"
    by (simp add: w0_def)
  from safe_get_retry_policy [OF h0, of not_found ConnectionError] nf
  have b: "safe_get (E_always not_found) (posts_rq 1) w0
             = (Inl (HTTPError 404), w0\<lparr>calls := 1\<rparr>)"
    by (simp add: w0_def)
  have t: "net E_slow (calls w0 + 0) (posts_rq 1) = Raises ReadTimeout"
    "net E_slow (calls w0 + 1) (posts_rq 1) = Raises ReadTimeout"
    by (simp_all add: E_slow_def w0_def)
  from a b t ok nf show ?thesis by simp
qed

section \<open>Properties of the consumer\<close>

lemma df_all_show_sorted [simp]: "df_all (show_sorted st df) = df_all st"
  by (simp add: show_sorted_def Let_def)

lemma df_all_apply_filters [simp]: "df_all (snd (apply_filters lib st)) = df_all st"
  by (simp add: apply_filters_def Let_def split: option.splits)

lemma df_all_on_page_events:
  "df_all (snd (on_page_events lib evs st)) = df_all st @ filter has_start evs"
  by (cases "chk_live_filter st") (simp_all add: on_page_events_def Let_def)

lemma df_all_on_finished [simp]: "df_all (snd (on_finished lib st)) = df_all st"
proof -
  let ?st = "st\<lparr>loading := False, controls_enabled := True,
                 btn_export_enabled := (df_view st \<noteq> [])\<rparr>"
  have "df_all (snd (apply_filters lib ?st)) = df_all st"
    by (simp only: df_all_apply_filters) simp
  then show ?thesis
    by (cases "apply_filters lib ?st") (auto simp: on_finished_def split: option.splits)
qed

lemma df_all_deliver:
  "df_all (snd (deliver lib sig st)) = df_all st @ concat (map (filter has_start) (batches [sig]))"
  by (cases sig) (simp_all add: df_all_on_page_events on_progress_def on_failed_def)

lemma batches_Cons: "batches (sig # sigs) = batches [sig] @ batches sigs"
  by (cases sig) simp_all

lemma batches_append: "batches (xs @ ys) = batches xs @ batches ys"
  by (induction xs) (simp, metis append_Cons append_assoc batches_Cons)

lemma df_all_consume:
  "df_all (consume lib sigs st) = df_all st @ concat (map (filter has_start) (batches sigs))"
proof (induction sigs arbitrary: st)
  case Nil
  then show ?case by (simp add: consume_def)
next
  case (Cons sig sigs)
  have "consume lib (sig # sigs) st = consume lib sigs (snd (deliver lib sig st))"
    by (simp add: consume_def)
  then show ?case
    using Cons.IH [of "snd (deliver lib sig st)"] batches_Cons [of sig sigs]
    by (simp add: df_all_deliver)
qed

text \<open>
  C10.  A refresh that starts (no run is active) empties the accumulated
  collection \<open>df_all\<close> before any signal of the run arrives, and \<^verbatim>\<open>on_failed\<close> does
  not bring the former rows back: after the signals \<open>sigs\<close> of a run and its
  \<^verbatim>\<open>failed\<close> signal, \<open>df_all\<close> is exactly the rows with a start of the batches in
  \<open>sigs\<close>, in order.
\<close>

theorem failed_run_keeps_partial_data:
  assumes "\<not> loading st"
  shows "df_all (refresh_from_api st) = []
       \<and> df_all (consume lib (sigs @ [Failed e]) (refresh_from_api st))
           = concat (map (filter has_start) (batches sigs))"
  using assms by (simp add: df_all_consume batches_append refresh_from_api_def)

theorem failed_run_keeps_partial_data_witness:
  "\<not> loading app0
   \<and> df_all app0 = [wine_fest]
   \<and> df_all (refresh_from_api app0) = []
   \<and> df_all (consume lib0
        ([Status (Posts 1), Progress 1 3, PageEvents [fair, undated]] @ [Failed ConnectionError])
        (refresh_from_api app0)) = [fair]"
proof -
  have h: "\<not> loading app0" by (simp add: app0_def)
  have "has_start fair" and "\<not> has_start undated"
    by (simp_all add: has_start_def fair_def undated_def)
  with failed_run_keeps_partial_data
         [OF h, of lib0 "[Status (Posts 1), Progress 1 3, PageEvents [fair, undated]]"
            ConnectionError]
  show ?thesis by (simp add: app0_def)
qed


section \<open>Properties of the orchestrator\<close>

lemma safe_get_first_try:
  assumes "\<not> isl (attempt_result (net E (calls w) rq))"
  shows "safe_get E rq w = (attempt_result (net E (calls w) rq), w\<lparr>calls := calls w + 1\<rparr>)"
proof -
  from assms obtain r where r: "attempt_result (net E (calls w) rq) = Inr r"
    by (cases "attempt_result (net E (calls w) rq)") auto
  have "(1::nat) \<le> 3" by simp
  from safe_get_from_returns [OF this r] r show ?thesis
    by (simp add: safe_get_def)
qed

lemma attempt_result_Inr:
  "attempt_result out = Inr r \<Longrightarrow> out = Replies r"
  by (auto simp: attempt_result_def raise_for_status_def split: outcome.splits if_splits)

lemma safe_get_from_sound:
  "safe_get_from E rq retries attempt last_err w = (res, w') \<Longrightarrow>
     emitted w' = emitted w \<and> files w' = files w \<and> ticks w' = ticks w \<and> ios w' = ios w
     \<and> (\<forall>r. res = Inr r \<longrightarrow> (\<exists>n. net E n rq = Replies r))"
proof (induction E rq retries attempt last_err w rule: safe_get_from.induct)
  case (1 E rq retries attempt last_err w)
  show ?case
  proof (cases "retries < attempt")
    case True
    with "1.prems" show ?thesis
      by (auto simp: safe_get_from.simps [of E rq retries attempt last_err w]
          split: option.splits)
  next
    case False
    show ?thesis
    proof (cases "attempt_result (net E (calls w) rq)")
      case (Inr r)
      with False "1.prems" attempt_result_Inr [OF Inr] show ?thesis
        by (auto simp: safe_get_from.simps [of E rq retries attempt last_err w] try_get_eq)
    next
      case (Inl e)
      show ?thesis
      proof (cases "e = ReadTimeout \<and> attempt \<noteq> retries")
        case True
        let ?w = "w\<lparr>calls := calls w + 1\<rparr>"
        from True False Inl "1.prems"
        have "safe_get_from E rq retries (attempt + 1) (Some e) (time_sleep ?w) = (res, w')"
          by (simp add: safe_get_from.simps [of E rq retries attempt last_err w] try_get_eq)
        from "1.IH" [OF False _ _ _ _ this] True Inl show ?thesis
          by (simp add: try_get_eq time_sleep_def)
      next
        case False2: False
        with False Inl "1.prems" show ?thesis
          by (auto simp: safe_get_from.simps [of E rq retries attempt last_err w] try_get_eq
              split: if_splits)
      qed
    qed
  qed
qed

lemma safe_get_sound:
  assumes "safe_get E rq w = (res, w')"
  shows "emitted w' = emitted w" and "files w' = files w" and "ticks w' = ticks w"
    and "ios w' = ios w" and "res = Inr r \<Longrightarrow> \<exists>n. net E n rq = Replies r"
  using safe_get_from_sound [OF assms [unfolded safe_get_def]] by simp_all


lemma fetch_category_loop_quiet:
  assumes "fetch_category_loop lib E cat_map pg w = Some y"
  shows "emitted (snd y) = emitted w \<and> files (snd y) = files w \<and> ticks (snd y) = ticks w
       \<and> ios (snd y) = ios w"
proof (rule fetch_category_loop.raw_induct
    [where P = "\<lambda>lib E cat_map pg w y. emitted (snd y) = emitted w \<and> files (snd y) = files w
       \<and> ticks (snd y) = ticks w \<and> ios (snd y) = ios w", OF _ assms])
  fix loop :: "pylib \<Rightarrow> env \<Rightarrow> catmap \<Rightarrow> int \<Rightarrow> world \<Rightarrow> ((error + catmap) \<times> world) option"
    and lib E cat_map pg w y
  assume IH: "\<And>lib E cat_map pg w y. loop lib E cat_map pg w = Some y \<Longrightarrow>
      emitted (snd y) = emitted w \<and> files (snd y) = files w \<and> ticks (snd y) = ticks w
       \<and> ios (snd y) = ios w"
    and step: "(case safe_get E \<lparr>url = API_CATS, per_page = PER_PAGE, page = pg\<rparr> w of
      (Inl e, w') \<Rightarrow> Some (Inl e, w')
      | (Inr r, w') \<Rightarrow>
          case json_of r of Inl e \<Rightarrow> Some (Inl e, w')
          | Inr data \<Rightarrow>
              if \<not> truthy data then Some (Inr cat_map, w')
              else case bind (py_iter data)
                         (\<lambda>cs. fold_err (add_category lib) cs cat_map) of
                   Inl e \<Rightarrow> Some (Inl e, w')
                   | Inr cat_map' \<Rightarrow> loop lib E cat_map' (pg + 1) w') = Some y"
  obtain got w1 where g: "safe_get E \<lparr>url = API_CATS, per_page = PER_PAGE, page = pg\<rparr> w = (got, w1)"
    by (cases "safe_get E \<lparr>url = API_CATS, per_page = PER_PAGE, page = pg\<rparr> w")
  note q = safe_get_sound(1-4) [OF g]
  from step g q IH [of lib E _ "pg + 1" w1 y]
  show "emitted (snd y) = emitted w \<and> files (snd y) = files w \<and> ticks (snd y) = ticks w
       \<and> ios (snd y) = ios w"
    by (auto split: sum.splits if_splits)
qed

lemma fetch_category_map_quiet:
  assumes "fetch_category_map lib E w = Some (res, w')"
  shows "emitted w' = emitted w" and "files w' = files w" and "ticks w' = ticks w"
    and "ios w' = ios w"
  using fetch_category_loop_quiet [OF assms [unfolded fetch_category_map_def]] by simp_all

lemma answers_safe_get:
  assumes "answers E (calls w) t pg r ps"
  shows "safe_get E \<lparr>url = API_POSTS, per_page = PER_PAGE, page = pg\<rparr> w
           = (Inr r, w\<lparr>calls := calls w + (t + 1), sleeps := sleeps w + t\<rparr>)"
    and "json_of r = Inr (JList ps)"
proof -
  let ?rq = "\<lparr>url = API_POSTS, per_page = PER_PAGE, page = pg\<rparr>"
  from assms have h: "\<forall>i<t. net E (calls w + i) ?rq = Raises ReadTimeout"
    and a: "t < 3 \<and> attempt_result (net E (calls w + t) ?rq) = Inr r"
    by (simp_all add: answers_def attempt_result_def)
  from safe_get_after_timeouts [OF h, of r ConnectionError] a
  show "safe_get E ?rq w = (Inr r, w\<lparr>calls := calls w + (t + 1), sleeps := sleeps w + t\<rparr>)"
    by blast
  from assms show "json_of r = Inr (JList ps)"
    by (simp add: answers_def json_of_def)
qed

lemma map_err_all:
  "map f xs = map Inr ys \<Longrightarrow> map_err f xs = Inr ys"
  by (induction xs arbitrary: ys) (auto simp: bind_def)

lemma parse_events_all:
  assumes "map (\<lambda>p. parse_event lib p cat_map) ps = map Inr evs"
  shows "parse_events lib cat_map (JList ps) = Inr evs"
  using map_err_all [OF assms] by (simp add: parse_events_def bind_def)

lemma fetch_pages_emits:
  "\<exists>new. emitted (snd (fetch_pages lib E cat_map tot pgs posts w)) = emitted w @ new"
proof (induction pgs arbitrary: posts w)
  case Nil
  show ?case by simp
next
  case (Cons pg pgs)
  let ?rq = "\<lparr>url = API_POSTS, per_page = PER_PAGE, page = pg\<rparr>"
  obtain got w1 where g: "safe_get E ?rq (emit (Status (Posts pg)) w) = (got, w1)"
    by (cases "safe_get E ?rq (emit (Status (Posts pg)) w)")
  from safe_get_sound(1) [OF g] have e1: "emitted w1 = emitted w @ [Status (Posts pg)]"
    by (simp add: emit_def)
  show ?case
  proof (cases got)
    case (Inl e)
    with g e1 show ?thesis by simp
  next
    case (Inr r2)
    show ?thesis
    proof (cases "bind (json_of r2) (\<lambda>data.
                bind (posts_extend posts data) (\<lambda>posts'.
                bind (parse_events lib cat_map data) (\<lambda>ev2. Inr (posts', ev2))))")
      case (Inl e)
      with g \<open>got = Inr r2\<close> e1 show ?thesis by simp
    next
      case step: (Inr pe)
      obtain posts' ev2 where pe: "pe = (posts', ev2)" by (cases pe)
      let ?w = "emit (PageEvents ev2) (emit (Progress pg tot) w1)"
      from Cons.IH [of posts' ?w] obtain new
        where "emitted (snd (fetch_pages lib E cat_map tot pgs posts' ?w)) = emitted ?w @ new" ..
      with g \<open>got = Inr r2\<close> step pe e1 show ?thesis
        by (simp add: emit_def)
    qed
  qed
qed

lemma fetch_pages_answered:
  assumes "\<forall>k<m. answers E (calls w + (\<Sum>j<k. t j + 1)) (t k) (pg + int k) (r k) (ps k)
                  \<and> map (\<lambda>p. parse_event lib p cat_map) (ps k) = map Inr (evs k)"
    and "m = 0 \<or> pg + int m \<le> tot + 1"
  shows "\<exists>new rest. emitted (snd (fetch_pages lib E cat_map tot [pg..tot] (JList acc) w))
                       = emitted w @ new
           \<and> batches new = map evs [0..<m] @ rest
           \<and> (tot < pg + int m \<longrightarrow> rest = [])"
  using assms
proof (induction m arbitrary: pg w acc t r ps evs)
  case 0
  show ?case
  proof (cases "tot < pg")
    case True
    then show ?thesis by simp
  next
    case False
    from fetch_pages_emits [of lib E cat_map tot "[pg..tot]" "JList acc" w]
    obtain new where "emitted (snd (fetch_pages lib E cat_map tot [pg..tot] (JList acc) w))
                       = emitted w @ new" ..
    with False show ?thesis by simp
  qed
next
  case (Suc m)
  let ?rq = "\<lparr>url = API_POSTS, per_page = PER_PAGE, page = pg\<rparr>"
  let ?w0 = "emit (Status (Posts pg)) w"
  from Suc.prems(2) have le: "pg \<le> tot" by simp
  then have pgs: "[pg..tot] = pg # [pg + 1..tot]"
    by (simp add: upto_rec1)
  from Suc.prems(1) [rule_format, of 0]
  have a0: "answers E (calls ?w0) (t 0) pg (r 0) (ps 0)"
    and n0: "map (\<lambda>p. parse_event lib p cat_map) (ps 0) = map Inr (evs 0)"
    by (simp_all add: emit_def)
  note g = answers_safe_get [OF a0]
  let ?w1 = "?w0\<lparr>calls := calls ?w0 + (t 0 + 1), sleeps := sleeps ?w0 + t 0\<rparr>"
  let ?w2 = "emit (PageEvents (evs 0)) (emit (Progress pg tot) ?w1)"
  have step: "fetch_pages lib E cat_map tot [pg..tot] (JList acc) w
                = fetch_pages lib E cat_map tot [pg + 1..tot] (JList (acc @ ps 0)) ?w2"
    by (simp add: pgs g parse_events_all [OF n0] bind_def)
  have rest: "\<forall>k<m. answers E (calls ?w2 + (\<Sum>j<k. t (Suc j) + 1)) (t (Suc k))
                      (pg + 1 + int k) (r (Suc k)) (ps (Suc k))
                  \<and> map (\<lambda>p. parse_event lib p cat_map) (ps (Suc k)) = map Inr (evs (Suc k))"
  proof (intro allI impI)
    fix k assume "k < m"
    have "(\<Sum>j<Suc k. t j + 1) = (t 0 + 1) + (\<Sum>j<k. t (Suc j) + 1)"
      by (rule sum.lessThan_Suc_shift)
    then have "calls w + (\<Sum>j<Suc k. t j + 1) = calls ?w2 + (\<Sum>j<k. t (Suc j) + 1)"
      by (simp add: emit_def del: sum.lessThan_Suc)
    with \<open>k < m\<close> Suc.prems(1) [rule_format, of "Suc k"]
    show "answers E (calls ?w2 + (\<Sum>j<k. t (Suc j) + 1)) (t (Suc k))
                      (pg + 1 + int k) (r (Suc k)) (ps (Suc k))
                  \<and> map (\<lambda>p. parse_event lib p cat_map) (ps (Suc k)) = map Inr (evs (Suc k))"
      by (simp add: add.commute add.left_commute)
  qed
  from Suc.prems(2) have "m = 0 \<or> pg + 1 + int m \<le> tot + 1" by simp
  from Suc.IH [OF rest this, of "acc @ ps 0"] obtain new rest'
    where e: "emitted (snd (fetch_pages lib E cat_map tot [pg + 1..tot] (JList (acc @ ps 0)) ?w2))
                = emitted ?w2 @ new"
      and b: "batches new = map (\<lambda>k. evs (Suc k)) [0..<m] @ rest'"
      and c: "tot < pg + 1 + int m \<longrightarrow> rest' = []"
    by blast
  let ?new = "[Status (Posts pg), Progress pg tot, PageEvents (evs 0)] @ new"
  from e have "emitted (snd (fetch_pages lib E cat_map tot [pg..tot] (JList acc) w))
                 = emitted w @ ?new"
    by (simp add: step emit_def)
  moreover have "map evs [0..<Suc m] = evs 0 # map (\<lambda>k. evs (Suc k)) [0..<m]"
    by (simp add: upt_conv_Cons map_Suc_upt [symmetric] del: upt_Suc)
  with b have "batches ?new = map evs [0..<Suc m] @ rest'"
    by simp
  moreover from c have "tot < pg + int (Suc m) \<longrightarrow> rest' = []"
    by simp
  ultimately show ?case by blast
qed

lemma mkdir_quiet [simp]: "emitted (snd (mkdir E w)) = emitted w"
  by (simp add: mkdir_def split: option.splits)

lemma write_text_quiet [simp]: "emitted (snd (write_text E put doc w)) = emitted w"
  by (simp add: write_text_def split: option.splits fault.splits)

lemma utcnow_quiet [simp]: "emitted (snd (utcnow E w)) = emitted w"
  by (simp add: utcnow_def)

lemma save_cache_quiet: "emitted (snd (save_cache E cat_map posts w)) = emitted w"
proof -
  obtain r1 w1 where m: "mkdir E w = (r1, w1)" by (cases "mkdir E w")
  obtain r2 w2 where c: "write_text E put_cats (cat_map_doc cat_map) w1 = (r2, w2)"
    by (cases "write_text E put_cats (cat_map_doc cat_map) w1")
  obtain now w3 where u: "utcnow E w2 = (now, w3)" by (cases "utcnow E w2")
  from mkdir_quiet [of E w] m have e1: "emitted w1 = emitted w" by simp
  from write_text_quiet [of E put_cats "cat_map_doc cat_map" w1] c e1
  have e2: "emitted w2 = emitted w" by simp
  from utcnow_quiet [of E w2] u e2 have e3: "emitted w3 = emitted w" by simp
  from write_text_quiet [of E put_posts "posts_doc now posts" w3] e3
  have e4: "emitted (snd (write_text E put_posts (posts_doc now posts) w3)) = emitted w"
    by simp
  from m c u e1 e2 e4 show ?thesis
    by (simp add: save_cache_def split: sum.splits)
qed

lemma persist_batches:
  assumes "persist E cat_map posts w = (res, w')"
  shows "\<exists>new. emitted w' = emitted w @ new \<and> batches new = []"
proof -
  obtain now w1 where u: "utcnow E w = (now, w1)" by (cases "utcnow E w")
  then have e1: "emitted w1 = emitted w" by (auto simp: utcnow_def)
  obtain sres w2 where sv: "save_cache E cat_map posts w1 = (sres, w2)"
    by (cases "save_cache E cat_map posts w1")
  with save_cache_quiet [of E cat_map posts w1] e1 have e2: "emitted w2 = emitted w" by simp
  show ?thesis
  proof (cases sres)
    case (Inl e)
    with assms u sv e2 have "emitted w' = emitted w @ []"
      by (auto simp: persist_def)
    then show ?thesis by (metis batches.simps(1))
  next
    case (Inr u')
    with assms u sv e2
    have "emitted w' = emitted w @ [Finished cat_map posts (now @ ''Z'')]"
      by (auto simp: persist_def emit_def)
    then show ?thesis by (metis batches.simps(1,5))
  qed
qed


lemma run_tail_batches:
  assumes "run_body lib E w = Some (res, w3)"
  shows "\<exists>tail. map_option emitted (run lib E w) = Some (emitted w3 @ tail) \<and> batches tail = []"
proof (cases res)
  case (Inl e)
  with assms have "map_option emitted (run lib E w) = Some (emitted w3 @ [Failed e])"
    by (simp add: run_def emit_def)
  then show ?thesis by (intro exI [of _ "[Failed e]"]) simp
next
  case (Inr u)
  with assms have "map_option emitted (run lib E w) = Some (emitted w3 @ [])"
    by (simp add: run_def)
  then show ?thesis by (intro exI [of _ "[]"]) simp
qed

text \<open>
  C3, amended.  Let the categories be resolved, and let the server answer the
  requests of the run for the pages 1 to \<open>n\<close> of the posts, page \<open>k + 1\<close> after
  \<open>t k\<close> attempts that time out, fewer than three, with the records \<open>ps k\<close>, which
  normalize to the events \<open>evs k\<close>, one event for each record and in the order of
  the records; \<open>n\<close> is 1, or at most the total that the first answer announces.
  Then the run ends, and the first \<open>n\<close> batches it emits are \<open>evs 0\<close>, \<dots>,
  \<open>evs (n - 1)\<close>: one batch for each of these pages, in the order of the pages,
  each the normalization of all the records of its page with none left out,
  whatever their start.  When \<open>n\<close> reaches the total, these are all the batches
  of the run.  The records without a start are dropped by the consumer: of a
  batch, \<^verbatim>\<open>on_page_events\<close> appends to \<open>df_all\<close> the events that have a start.
\<close>

theorem batches_are_unfiltered:
  assumes "fetch_category_map lib E (emit (Status Categories) w) = Some (Inr cat_map, w1)"
    and "\<forall>k<n. answers E (calls w1 + (\<Sum>j<k. t j + 1)) (t k) (1 + int k) (r k) (ps k)
                \<and> map (\<lambda>p. parse_event lib p cat_map) (ps k) = map Inr (evs k)"
    and "py_int lib (header_get lib (r 0) ''X-WP-TotalPages'' (JInt 1)) = Inr tot"
    and "n = 1 \<or> 0 < n \<and> int n \<le> tot"
  shows "(\<exists>rest. map_option (\<lambda>w'. batches (drop (length (emitted w)) (emitted w')))
                    (run lib E w) = Some (map evs [0..<n] @ rest)
                \<and> (tot \<le> int n \<longrightarrow> rest = []))
       \<and> df_all (snd (on_page_events lib batch st)) = df_all st @ filter has_start batch"
proof
  let ?rq = "\<lparr>url = API_POSTS, per_page = PER_PAGE, page = 1\<rparr>"
  let ?v1 = "emit (Status (Posts 1)) w1"
  let ?w2 = "?v1\<lparr>calls := calls ?v1 + (t 0 + 1), sleeps := sleeps ?v1 + t 0\<rparr>"
  let ?w = "emit (PageEvents (evs 0)) (emit (Progress 1 tot) ?w2)"
  from assms(4) obtain m where n: "n = Suc m" by (cases n) auto
  from fetch_category_map_quiet(1) [OF assms(1)]
  have e1: "emitted w1 = emitted w @ [Status Categories]" by (simp add: emit_def)
  from assms(2) [rule_format, of 0] n
  have a0: "answers E (calls ?v1) (t 0) 1 (r 0) (ps 0)"
    and n0: "map (\<lambda>p. parse_event lib p cat_map) (ps 0) = map Inr (evs 0)"
    by (simp_all add: emit_def)
  note g = answers_safe_get [OF a0]
  have later: "\<forall>k<m. answers E (calls ?w + (\<Sum>j<k. t (Suc j) + 1)) (t (Suc k)) (2 + int k)
                      (r (Suc k)) (ps (Suc k))
                  \<and> map (\<lambda>p. parse_event lib p cat_map) (ps (Suc k)) = map Inr (evs (Suc k))"
  proof (intro allI impI)
    fix k assume "k < m"
    have "(\<Sum>j<Suc k. t j + 1) = (t 0 + 1) + (\<Sum>j<k. t (Suc j) + 1)"
      by (rule sum.lessThan_Suc_shift)
    then have "calls w1 + (\<Sum>j<Suc k. t j + 1) = calls ?w + (\<Sum>j<k. t (Suc j) + 1)"
      by (simp add: emit_def del: sum.lessThan_Suc)
    with \<open>k < m\<close> assms(2) [rule_format, of "Suc k"] n
    show "answers E (calls ?w + (\<Sum>j<k. t (Suc j) + 1)) (t (Suc k)) (2 + int k)
                      (r (Suc k)) (ps (Suc k))
                  \<and> map (\<lambda>p. parse_event lib p cat_map) (ps (Suc k)) = map Inr (evs (Suc k))"
      by (simp add: add.commute add.left_commute)
  qed
  from assms(4) n have "m = 0 \<or> 2 + int m \<le> tot + 1" by auto
  from fetch_pages_answered [OF later this, of "ps 0"] obtain new rest
    where e3: "emitted (snd (fetch_pages lib E cat_map tot [2..tot] (JList (ps 0)) ?w))
                 = emitted ?w @ new"
      and b3: "batches new = map (\<lambda>k. evs (Suc k)) [0..<m] @ rest"
      and c3: "tot < 2 + int m \<longrightarrow> rest = []"
    by blast
  obtain res3 w3 where fp: "fetch_pages lib E cat_map tot [2..tot] (JList (ps 0)) ?w = (res3, w3)"
    by (cases "fetch_pages lib E cat_map tot [2..tot] (JList (ps 0)) ?w")
  have "\<exists>res w4 new4. run_body lib E w = Some (res, w4) \<and> emitted w4 = emitted w3 @ new4
          \<and> batches new4 = []"
  proof (cases res3)
    case (Inl e)
    with assms(1,3) g fp n0 have "run_body lib E w = Some (Inl e, w3)"
      by (simp add: run_body_def parse_events_all bind_def)
    then show ?thesis by simp
  next
    case (Inr posts')
    obtain res4 w4 where p: "persist E cat_map posts' w3 = (res4, w4)"
      by (cases "persist E cat_map posts' w3")
    with Inr assms(1,3) g fp n0 have "run_body lib E w = Some (res4, w4)"
      by (simp add: run_body_def parse_events_all bind_def)
    with persist_batches [OF p] show ?thesis by blast
  qed
  then obtain res w4 new4 where rb: "run_body lib E w = Some (res, w4)"
    and e4: "emitted w4 = emitted w3 @ new4" and b4: "batches new4 = []"
    by blast
  from run_tail_batches [OF rb] obtain tail
    where fin: "map_option emitted (run lib E w) = Some (emitted w4 @ tail)"
      and bt: "batches tail = []"
    by blast
  let ?pre = "[Status Categories, Status (Posts 1), Progress 1 tot, PageEvents (evs 0)]"
  from e3 fp e4 e1 have "emitted w4 @ tail = emitted w @ (?pre @ new @ new4 @ tail)"
    by (simp add: emit_def)
  with fin obtain w' where r: "run lib E w = Some w'"
    and ew: "emitted w' = emitted w @ (?pre @ new @ new4 @ tail)"
    by (cases "run lib E w") auto
  have "map evs [0..<n] = evs 0 # map (\<lambda>k. evs (Suc k)) [0..<m]"
    by (simp add: n upt_conv_Cons map_Suc_upt [symmetric] del: upt_Suc)
  with b3 b4 bt have "batches (?pre @ new @ new4 @ tail) = map evs [0..<n] @ rest"
    by (simp add: batches_append)
  with r ew have "map_option (\<lambda>w'. batches (drop (length (emitted w)) (emitted w')))
                    (run lib E w) = Some (map evs [0..<n] @ rest)"
    by simp
  moreover from c3 n have "tot \<le> int n \<longrightarrow> rest = []" by simp
  ultimately show "\<exists>rest. map_option (\<lambda>w'. batches (drop (length (emitted w)) (emitted w')))
                    (run lib E w) = Some (map evs [0..<n] @ rest)
                \<and> (tot \<le> int n \<longrightarrow> rest = [])"
    by blast
next
  show "df_all (snd (on_page_events lib batch st)) = df_all st @ filter has_start batch"
    by (rule df_all_on_page_events)
qed


lemma one_page_server_categories:
  "fetch_category_map lib (one_page_server P) w = Some (Inr [], w\<lparr>calls := calls w + 1\<rparr>)"
  unfolding fetch_category_map_def
  by (subst fetch_category_loop.simps)
     (simp add: safe_get_first_try one_page_server_def empty_page_def json_of_def
        attempt_result_def raise_for_status_def)

lemma one_page_server_posts:
  assumes "status_code P = 200"
  shows "safe_get (one_page_server P) \<lparr>url = API_POSTS, per_page = PER_PAGE, page = pg\<rparr> w
           = (Inr P, w\<lparr>calls := calls w + 1\<rparr>)"
  using assms
  by (simp add: safe_get_first_try one_page_server_def attempt_result_def raise_for_status_def)

lemma one_page_server_disk [simp]: "disk (one_page_server P) n = None"
  by (simp add: one_page_server_def)

lemma one_page_server_clock [simp]: "clock (one_page_server P) n = ''2024-09-01T10:00:00''"
  by (simp add: one_page_server_def)

lemma int_of_abc: "int_of_str lib ''abc'' = None"
  by (simp add: int_of_str_def is_ascii_def py_strip_def whitespace_def digits_value_def
      is_digit_def strip_front.simps)

lemma parse_bare: "parse_event lib (JObj []) cat_map = Inr nameless"
  by (simp add: parse_event_def bind_def py_or_def nameless_def py_strip_def strip_front.simps
      whitespace_def)

lemma save_cache_no_fault:
  assumes "disk E (ios w) = None" and "disk E (ios w + 1) = None"
    and "disk E (ios w + 2) = None"
  shows "save_cache E cat_map posts w
           = (Inr (), w\<lparr>ios := ios w + 3, ticks := ticks w + 1,
                         files := (files w)\<lparr>dir_exists := True,
                           CACHE_CATS := Some (Document (cat_map_doc cat_map)),
                           CACHE_POSTS := Some (Document (posts_doc (clock E (ticks w)) posts))\<rparr>\<rparr>)"
  using assms
  by (simp add: save_cache_def mkdir_def write_text_def utcnow_def put_cats_def put_posts_def)

lemma run_bare_page:
  "run lib0 (one_page_server bare_page) w0
  = Some (w0\<lparr>calls := 2, ios := 3, ticks := 2,
        emitted := [Status Categories, Status (Posts 1), Progress 1 1, PageEvents [nameless],
          Finished [] (JList [JObj []]) ''2024-09-01T10:00:00Z''],
        files := \<lparr>dir_exists = True, CACHE_CATS = Some (Document (JObj [])),
          CACHE_POSTS = Some (Document (posts_doc ''2024-09-01T10:00:00'' (JList [JObj []])))\<rparr>\<rparr>)"
proof -
  have hdr: "header_get lib0 bare_page ''X-WP-TotalPages'' (JInt 1) = JInt 1"
    by (simp add: header_get_def bare_page_def)
  have st: "status_code bare_page = 200"
    by (simp add: bare_page_def)
  have js: "json_of bare_page = Inr (JList [JObj []])"
    by (simp add: bare_page_def json_of_def)
  show ?thesis
    by (simp add: run_def run_body_def persist_def one_page_server_categories
        one_page_server_posts [OF st]
        hdr js bind_def parse_events_def parse_bare utcnow_def save_cache_no_fault)
       (simp add: emit_def w0_def cat_map_doc_def)
qed

text \<open>
  C3, as stated, fails: the orchestrator does not filter.  A page whose single
  record has no start date is emitted as a batch of one event without start.
\<close>

theorem batch_with_undated_event:
  "run lib0 (one_page_server bare_page) w0
     = Some (w0\<lparr>calls := 2, ios := 3, ticks := 2,
        emitted := [Status Categories, Status (Posts 1), Progress 1 1, PageEvents [nameless],
          Finished [] (JList [JObj []]) ''2024-09-01T10:00:00Z''],
        files := \<lparr>dir_exists = True, CACHE_CATS = Some (Document (JObj [])),
          CACHE_POSTS = Some (Document (posts_doc ''2024-09-01T10:00:00'' (JList [JObj []])))\<rparr>\<rparr>)
   \<and> Kezdete nameless = None"
  by (simp add: run_bare_page) (simp add: nameless_def)

lemma E_two_categories:
  "fetch_category_map lib E_two w = Some (Inr [], w\<lparr>calls := calls w + 1\<rparr>)"
  unfolding fetch_category_map_def
  by (subst fetch_category_loop.simps)
     (simp add: safe_get_first_try E_two_def empty_page_def json_of_def
        attempt_result_def raise_for_status_def)

lemma total_of_two:
  "py_int lib0 (header_get lib0 first_of_two ''X-WP-TotalPages'' (JInt 1)) = Inr 2"
  by code_simp

theorem batches_are_unfiltered_witness:
  "fetch_category_map lib0 E_two (emit (Status Categories) w0)
     = Some (Inr [], (emit (Status Categories) w0)\<lparr>calls := 1\<rparr>)
   \<and> answers E_two 1 0 1 first_of_two [JObj []]
   \<and> answers E_two 2 1 2 second_of_two [JObj [], JObj []]
   \<and> map (\<lambda>p. parse_event lib0 p []) [JObj []] = map Inr [nameless]
   \<and> map (\<lambda>p. parse_event lib0 p []) [JObj [], JObj []] = map Inr [nameless, nameless]
   \<and> py_int lib0 (header_get lib0 first_of_two ''X-WP-TotalPages'' (JInt 1)) = Inr 2
   \<and> map_option (\<lambda>w'. batches (drop (length (emitted w0)) (emitted w'))) (run lib0 E_two w0)
       = Some [[nameless], [nameless, nameless]]
   \<and> df_all (snd (on_page_events lib0 [nameless, fair] app0)) = [wine_fest, fair]"
proof -
  let ?w1 = "(emit (Status Categories) w0)\<lparr>calls := 1\<rparr>"
  let ?t = "\<lambda>k::nat. if k = 0 then 0 else (1::nat)"
  let ?r = "\<lambda>k::nat. if k = 0 then first_of_two else second_of_two"
  let ?ps = "\<lambda>k::nat. if k = 0 then [JObj []] else [JObj [], JObj []]"
  let ?evs = "\<lambda>k::nat. if k = 0 then [nameless] else [nameless, nameless]"
  have cats: "fetch_category_map lib0 E_two (emit (Status Categories) w0) = Some (Inr [], ?w1)"
    by (simp add: E_two_categories) (simp add: emit_def w0_def)
  have a1: "answers E_two 1 0 1 first_of_two [JObj []]"
    and a2: "answers E_two 2 1 2 second_of_two [JObj [], JObj []]"
    by (simp_all add: answers_def E_two_def first_of_two_def second_of_two_def
        raise_for_status_def)
  have p1: "map (\<lambda>p. parse_event lib0 p []) [JObj []] = map Inr [nameless]"
    and p2: "map (\<lambda>p. parse_event lib0 p []) [JObj [], JObj []] = map Inr [nameless, nameless]"
    by (simp_all add: parse_bare)
  have h: "\<forall>k<2. answers E_two (calls ?w1 + (\<Sum>j<k. ?t j + 1)) (?t k) (1 + int k)
                   (?r k) (?ps k)
                \<and> map (\<lambda>p. parse_event lib0 p []) (?ps k) = map Inr (?evs k)"
  proof (intro allI impI)
    fix k :: nat assume "k < 2"
    then have "k = 0 \<or> k = 1" by auto
    with a1 a2 p1 p2
    show "answers E_two (calls ?w1 + (\<Sum>j<k. ?t j + 1)) (?t k) (1 + int k) (?r k) (?ps k)
                \<and> map (\<lambda>p. parse_event lib0 p []) (?ps k) = map Inr (?evs k)"
      by (auto simp: numeral_2_eq_2)
  qed
  have t: "py_int lib0 (header_get lib0 (?r 0) ''X-WP-TotalPages'' (JInt 1)) = Inr 2"
    by (simp add: total_of_two)
  have n: "(2::nat) = 1 \<or> 0 < (2::nat) \<and> int 2 \<le> 2" by simp
  have "has_start fair" and "\<not> has_start nameless"
    by (simp_all add: has_start_def fair_def nameless_def)
  with batches_are_unfiltered [OF cats h t n, of "[nameless, fair]" app0]
  have "map_option (\<lambda>w'. batches (drop (length (emitted w0)) (emitted w'))) (run lib0 E_two w0)
          = Some [[nameless], [nameless, nameless]]
        \<and> df_all (snd (on_page_events lib0 [nameless, fair] app0)) = [wine_fest, fair]"
    by (simp add: app0_def numeral_2_eq_2)
  with cats a1 a2 p1 p2 total_of_two show ?thesis by simp
qed

text \<open>
  C8, as stated, fails on a malformed total: the header \<^verbatim>\<open>X-WP-TotalPages: abc\<close>
  makes \<^verbatim>\<open>int\<close> raise, and the run ends with the signal \<^verbatim>\<open>failed\<close> before any
  progress or batch.
\<close>

theorem malformed_total_fails_the_run:
  "run lib0 (one_page_server odd_total_page) w0
     = Some (w0\<lparr>calls := 2,
               emitted := [Status Categories, Status (Posts 1), Failed ValueError]\<rparr>)"
proof -
  have hdr: "header_get lib0 odd_total_page ''X-WP-TotalPages'' (JInt 1) = JStr ''abc''"
    by (simp add: header_get_def odd_total_page_def)
  have st: "status_code odd_total_page = 200"
    by (simp add: odd_total_page_def)
  have js: "json_of odd_total_page = Inr (JList [])"
    by (simp add: odd_total_page_def json_of_def)
  have "run lib0 (one_page_server odd_total_page) w0
      = Some (emit (Failed ValueError)
          ((emit (Status (Posts 1)) ((emit (Status Categories) w0)\<lparr>calls := 1\<rparr>))\<lparr>calls := 2\<rparr>))"
    by (simp add: run_def run_body_def one_page_server_categories one_page_server_posts [OF st]
        hdr js int_of_abc bind_def) (simp add: emit_def w0_def)
  then show ?thesis by (simp add: emit_def w0_def)
qed

text \<open>
  C8, amended.  Page 1 of the posts has arrived and its body is JSON.  If the
  response has no header \<^verbatim>\<open>X-WP-TotalPages\<close>, the total is 1: once the records are
  normalized the run reports progress \<open>(1, 1)\<close>, emits the batch, requests no
  further page and goes on to persist.  If the header is there and \<^verbatim>\<open>int\<close> rejects
  its value, the run fails with \<^verbatim>\<open>ValueError\<close> at that point.
\<close>

theorem total_pages_from_header:
  assumes "fetch_category_map lib E (emit (Status Categories) w) = Some (Inr cat_map, w1)"
    and "safe_get E \<lparr>url = API_POSTS, per_page = PER_PAGE, page = 1\<rparr>
           (emit (Status (Posts 1)) w1) = (Inr r, w2)"
    and "json_of r = Inr posts"
  shows "(find (\<lambda>kv. py_lower lib (fst kv) = py_lower lib ''X-WP-TotalPages'') (headers r) = None
          \<and> parse_events lib cat_map posts = Inr ev \<longrightarrow>
            run lib E w
              = Some (case persist E cat_map posts
                             (emit (PageEvents ev) (emit (Progress 1 1) w2)) of
                        (Inl e, w') \<Rightarrow> emit (Failed e) w'
                      | (Inr u, w') \<Rightarrow> w'))
       \<and> (find (\<lambda>kv. py_lower lib (fst kv) = py_lower lib ''X-WP-TotalPages'') (headers r)
            = Some (k, v) \<and> int_of_str lib v = None \<longrightarrow>
            run lib E w = Some (emit (Failed ValueError) w2))"
  using assms
  by (auto simp: run_def run_body_def header_get_def bind_def split: prod.splits sum.splits)

theorem total_pages_from_header_witness:
  "fetch_category_map lib0 (one_page_server bare_page) (emit (Status Categories) w0)
     = Some (Inr [], (emit (Status Categories) w0)\<lparr>calls := 1\<rparr>)
   \<and> safe_get (one_page_server bare_page) \<lparr>url = API_POSTS, per_page = PER_PAGE, page = 1\<rparr>
        (emit (Status (Posts 1)) ((emit (Status Categories) w0)\<lparr>calls := 1\<rparr>))
      = (Inr bare_page, (emit (Status (Posts 1)) ((emit (Status Categories) w0)\<lparr>calls := 1\<rparr>))
            \<lparr>calls := 2\<rparr>)
   \<and> json_of bare_page = Inr (JList [JObj []])
   \<and> find (\<lambda>kv. py_lower lib0 (fst kv) = py_lower lib0 ''X-WP-TotalPages'') (headers bare_page)
       = None
   \<and> parse_events lib0 [] (JList [JObj []]) = Inr [nameless]
   \<and> map_option emitted (run lib0 (one_page_server bare_page) w0)
       = Some [Status Categories, Status (Posts 1), Progress 1 1, PageEvents [nameless],
               Finished [] (JList [JObj []]) ''2024-09-01T10:00:00Z'']"
proof -
  let ?E = "one_page_server bare_page"
  let ?w1 = "(emit (Status Categories) w0)\<lparr>calls := 1\<rparr>"
  let ?w2 = "(emit (Status (Posts 1)) ?w1)\<lparr>calls := 2\<rparr>"
  have cats: "fetch_category_map lib0 ?E (emit (Status Categories) w0) = Some (Inr [], ?w1)"
    by (simp add: one_page_server_categories) (simp add: emit_def w0_def)
  have st: "status_code bare_page = 200"
    by (simp add: bare_page_def)
  have get: "safe_get ?E \<lparr>url = API_POSTS, per_page = PER_PAGE, page = 1\<rparr>
               (emit (Status (Posts 1)) ?w1) = (Inr bare_page, ?w2)"
    by (simp add: one_page_server_posts [OF st]) (simp add: emit_def w0_def)
  have js: "json_of bare_page = Inr (JList [JObj []])"
    by (simp add: bare_page_def json_of_def)
  have absent: "find (\<lambda>kv. py_lower lib0 (fst kv) = py_lower lib0 ''X-WP-TotalPages'')
      (headers bare_page) = None"
    by (simp add: bare_page_def)
  have pe: "parse_events lib0 [] (JList [JObj []]) = Inr [nameless]"
    by (simp add: parse_events_def bind_def parse_bare)
  from total_pages_from_header [OF cats get js, of "[nameless]" "[]" "[]"] absent pe
  have "run lib0 ?E w0
      = Some (case persist ?E [] (JList [JObj []])
                     (emit (PageEvents [nameless]) (emit (Progress 1 1) ?w2)) of
                (Inl e, w') \<Rightarrow> emit (Failed e) w'
              | (Inr u, w') \<Rightarrow> w')"
    by simp
  then have "map_option emitted (run lib0 ?E w0)
       = Some [Status Categories, Status (Posts 1), Progress 1 1, PageEvents [nameless],
               Finished [] (JList [JObj []]) ''2024-09-01T10:00:00Z'']"
    by (simp add: persist_def utcnow_def save_cache_no_fault) (simp add: emit_def w0_def)
  with cats get js absent pe show ?thesis by simp
qed


section \<open>Properties of the built-ins\<close>

lemma is_digit_iff: "is_digit c \<longleftrightarrow> 48 \<le> (of_char c :: nat) \<and> (of_char c :: nat) \<le> 57"
  by (simp add: is_digit_def less_eq_char_def)


















section \<open>Properties of the cache store\<close>

lemma str_int_2: "str_int 2 = ''2''"
  by code_simp

lemma save_cache_third_fails:
  "save_cache E_third_fails [(2, ''Vasar'')] (JList [JObj []]) w_cached
     = (Inl OSError,
        w_cached\<lparr>ios := 3, ticks := 1,
          files := old_snapshot\<lparr>CACHE_CATS := Some (Document (JObj [(''2'', JStr ''Vasar'')]))\<rparr>\<rparr>)"
  by (simp add: save_cache_def mkdir_def write_text_def utcnow_def put_cats_def put_posts_def
      E_third_fails_def w_cached_def w0_def cat_map_doc_def str_int_2 old_snapshot_def)

text \<open>
  C1, as stated, fails: \<^verbatim>\<open>save_cache\<close> writes the two files one after the other.  On
  a disk where the envelope cannot be opened for writing, \<^verbatim>\<open>save_cache\<close> raises, and
  the category map on disk is already the new table, not the former one.
\<close>

theorem save_cache_not_atomic:
  "fst (save_cache E_third_fails [(2, ''Vasar'')] (JList [JObj []]) w_cached) = Inl OSError
   \<and> CACHE_CATS (files w_cached) = Some (Document (JObj [(''1'', JStr ''Bor'')]))
   \<and> CACHE_CATS (files (snd (save_cache E_third_fails [(2, ''Vasar'')] (JList [JObj []]) w_cached)))
        = Some (Document (JObj [(''2'', JStr ''Vasar'')]))"
  by (simp add: save_cache_third_fails) (simp add: w_cached_def old_snapshot_def)

text \<open>
  C1, amended.  \<^verbatim>\<open>save_cache\<close> creates the directory, writes the category map, then
  writes the envelope, each file in place.  When it raises: if the directory
  could not be created, or the category map could not be opened, both artifacts
  are what they were; if the category map failed while being written, it holds
  a fragment and the envelope is what it was; if the category map was written,
  it holds the new table, and the envelope is what it was (it could not be
  opened) or holds a fragment (it failed while being written).
\<close>

theorem save_cache_failure_effects:
  assumes "save_cache E cat_map posts w = (Inl e, w')"
  shows "(disk E (ios w) \<noteq> None \<or> disk E (ios w + 1) = Some OpenFails \<longrightarrow>
            CACHE_CATS (files w') = CACHE_CATS (files w)
            \<and> CACHE_POSTS (files w') = CACHE_POSTS (files w))
       \<and> (disk E (ios w) = None \<and> disk E (ios w + 1) = Some (WriteFails t) \<longrightarrow>
            CACHE_CATS (files w') = Some (Unparsable t)
            \<and> CACHE_POSTS (files w') = CACHE_POSTS (files w))
       \<and> (disk E (ios w) = None \<and> disk E (ios w + 1) = None \<longrightarrow>
            CACHE_CATS (files w') = Some (Document (cat_map_doc cat_map))
            \<and> (disk E (ios w + 2) = Some OpenFails \<longrightarrow>
                  CACHE_POSTS (files w') = CACHE_POSTS (files w))
            \<and> (disk E (ios w + 2) = Some (WriteFails t) \<longrightarrow>
                  CACHE_POSTS (files w') = Some (Unparsable t)))"
  using assms
  by (auto simp: save_cache_def mkdir_def write_text_def utcnow_def put_cats_def put_posts_def
      split: option.splits fault.splits)

theorem save_cache_failure_effects_witness:
  "save_cache E_third_fails [(2, ''Vasar'')] (JList [JObj []]) w_cached
     = (Inl OSError,
        w_cached\<lparr>ios := 3, ticks := 1,
          files := old_snapshot\<lparr>CACHE_CATS := Some (Document (JObj [(''2'', JStr ''Vasar'')]))\<rparr>\<rparr>)
   \<and> disk E_third_fails (ios w_cached) = None
   \<and> disk E_third_fails (ios w_cached + 1) = None
   \<and> disk E_third_fails (ios w_cached + 2) = Some OpenFails
   \<and> CACHE_POSTS (files (snd (save_cache E_third_fails [(2, ''Vasar'')] (JList [JObj []]) w_cached)))
        = CACHE_POSTS (files w_cached)
   \<and> CACHE_CATS (files (snd (save_cache E_third_fails [(2, ''Vasar'')] (JList [JObj []]) w_cached)))
        = Some (Document (cat_map_doc [(2, ''Vasar'')]))"
proof -
  have d: "disk E_third_fails (ios w_cached) = None"
    "disk E_third_fails (ios w_cached + 1) = None"
    "disk E_third_fails (ios w_cached + 2) = Some OpenFails"
    by (simp_all add: E_third_fails_def w_cached_def w0_def)
  from save_cache_failure_effects [OF save_cache_third_fails, of "[]"] d
  show ?thesis by (simp add: save_cache_third_fails)
qed


lemma dict_set_fresh: "k \<notin> fst ` set m \<Longrightarrow> dict_set m k v = m @ [(k, v)]"
  by (induction m) auto









section \<open>Properties of the category resolver\<close>

lemma add_category_wf:
  assumes "wf_entry c"
  shows "add_category lib m c
           = Inr (case entry_of lib c of None \<Rightarrow> m | Some (i, n) \<Rightarrow> dict_set m i n)"
proof -
  from assms obtain kvs where c: "c = JObj kvs"
    by (cases c) (simp_all add: wf_entry_def)
  show ?thesis
  proof (cases "map_of kvs ''id''")
    case None
    then show ?thesis
      by (simp add: c add_category_def entry_of_def bind_def)
  next
    case (Some cid)
    with assms c have "cid = JNull \<or> (\<exists>i. cid = JInt i)"
      by (cases cid) (simp_all add: wf_entry_def)
    with Some show ?thesis
      by (auto simp: c add_category_def entry_of_def bind_def split: option.splits)
  qed
qed

lemma fold_err_wf:
  assumes "list_all wf_entry cs"
  shows "fold_err (add_category lib) cs m
           = Inr (foldl (\<lambda>m c. case entry_of lib c of None \<Rightarrow> m | Some (i, n) \<Rightarrow> dict_set m i n)
                    m cs)"
  using assms
  by (induction cs arbitrary: m) (simp_all add: add_category_wf bind_def)

lemma serves_safe_get:
  assumes "serves E (calls w) pg data"
  shows "\<exists>r. safe_get E \<lparr>url = API_CATS, per_page = PER_PAGE, page = pg\<rparr> w
               = (Inr r, w\<lparr>calls := calls w + 1\<rparr>) \<and> json_of r = Inr data"
proof -
  from assms obtain r
    where r: "net E (calls w) \<lparr>url = API_CATS, per_page = PER_PAGE, page = pg\<rparr> = Replies r"
      and ok: "raise_for_status r = Inr r" and b: "body r = Some data"
    by (auto simp: serves_def)
  from r ok have "attempt_result (net E (calls w) \<lparr>url = API_CATS, per_page = PER_PAGE, page = pg\<rparr>)
      = Inr r"
    by (simp add: attempt_result_def)
  then have "safe_get E \<lparr>url = API_CATS, per_page = PER_PAGE, page = pg\<rparr> w
      = (Inr r, w\<lparr>calls := calls w + 1\<rparr>)"
    using safe_get_first_try [of E w "\<lparr>url = API_CATS, per_page = PER_PAGE, page = pg\<rparr>"]
    by simp
  with b show ?thesis by (auto simp: json_of_def)
qed

lemma fetch_category_loop_pages:
  assumes "\<forall>k<length pages. pages ! k \<noteq> [] \<and> list_all wf_entry (pages ! k)
             \<and> serves E (calls w + k) (pg + int k) (JList (pages ! k))"
    and "serves E (calls w + length pages) (pg + int (length pages)) (JList [])"
  shows "fetch_category_loop lib E m pg w
           = Some (Inr (foldl (\<lambda>m c. case entry_of lib c of None \<Rightarrow> m
                                        | Some (i, n) \<Rightarrow> dict_set m i n) m (concat pages)),
                   w\<lparr>calls := calls w + length pages + 1\<rparr>)"
  using assms
proof (induction pages arbitrary: m pg w)
  case Nil
  from serves_safe_get [of E w pg "JList []"] Nil.prems(2)
  obtain r where "safe_get E \<lparr>url = API_CATS, per_page = PER_PAGE, page = pg\<rparr> w
               = (Inr r, w\<lparr>calls := calls w + 1\<rparr>)" and "json_of r = Inr (JList [])"
    by auto
  then show ?case
    by (subst fetch_category_loop.simps) simp
next
  case (Cons p pages)
  let ?w = "w\<lparr>calls := calls w + 1\<rparr>"
  from Cons.prems(1) [rule_format, of 0]
  have p: "p \<noteq> []" "list_all wf_entry p" "serves E (calls w) pg (JList p)"
    by simp_all
  from serves_safe_get [OF p(3)]
  obtain r where g: "safe_get E \<lparr>url = API_CATS, per_page = PER_PAGE, page = pg\<rparr> w = (Inr r, ?w)"
    and js: "json_of r = Inr (JList p)"
    by auto
  have rest: "\<forall>k<length pages. pages ! k \<noteq> [] \<and> list_all wf_entry (pages ! k)
             \<and> serves E (calls ?w + k) (pg + 1 + int k) (JList (pages ! k))"
  proof (intro allI impI)
    fix k assume "k < length pages"
    with Cons.prems(1) [rule_format, of "Suc k"]
    show "pages ! k \<noteq> [] \<and> list_all wf_entry (pages ! k)
             \<and> serves E (calls ?w + k) (pg + 1 + int k) (JList (pages ! k))"
      by (simp add: algebra_simps)
  qed
  from Cons.prems(2)
  have last: "serves E (calls ?w + length pages) (pg + 1 + int (length pages)) (JList [])"
    by (simp add: algebra_simps)
  let ?m = "foldl (\<lambda>m c. case entry_of lib c of None \<Rightarrow> m | Some (i, n) \<Rightarrow> dict_set m i n) m p"
  have "fetch_category_loop lib E m pg w = fetch_category_loop lib E ?m (pg + 1) ?w"
    by (subst fetch_category_loop.simps) (simp add: g js p fold_err_wf bind_def)
  also note Cons.IH [OF rest last, of ?m]
  finally show ?case by simp
qed

lemma table_of_complete:
  assumes "\<forall>c\<in>set es. entry_of lib c \<noteq> None"
    and "distinct (map fst (m @ map (\<lambda>c. the (entry_of lib c)) es))"
  shows "foldl (\<lambda>m c. case entry_of lib c of None \<Rightarrow> m | Some (i, n) \<Rightarrow> dict_set m i n) m es
           = m @ map (\<lambda>c. the (entry_of lib c)) es"
  using assms
proof (induction es arbitrary: m)
  case Nil
  then show ?case by simp
next
  case (Cons c es)
  from Cons.prems(1) obtain i n where e: "entry_of lib c = Some (i, n)" by auto
  with Cons.prems(2) have fresh: "i \<notin> fst ` set m" by auto
  from Cons.prems(2) e have "distinct (map fst ((m @ [(i, n)]) @ map (\<lambda>c. the (entry_of lib c)) es))"
    by simp
  with Cons.IH [of "m @ [(i, n)]"] Cons.prems(1) e fresh show ?case
    by (simp add: dict_set_fresh)
qed


text \<open>
  C7.  Let the server answer the requests for pages 1, 2, \<dots> of the categories,
  at the fixed page size, with the non-empty lists \<open>pages\<close> of well-formed
  entries, and the next request with an empty list.  Then \<^verbatim>\<open>fetch_category_map\<close>
  returns after one request more than there are pages in \<open>pages\<close>, with the
  table of all their entries in order: an entry with an id and a name sets its
  id to its name, an entry without one of them is passed over.  When every
  entry has both and the ids are distinct, the table has one row for each
  entry; for pages of 100, 100 and 37 entries that is 237 rows after 4
  requests, 3 of them with data.
\<close>

theorem category_pages:
  assumes "\<forall>k<length pages. pages ! k \<noteq> [] \<and> list_all wf_entry (pages ! k)
             \<and> serves E (calls w + k) (1 + int k) (JList (pages ! k))"
    and "serves E (calls w + length pages) (1 + int (length pages)) (JList [])"
  shows "fetch_category_map lib E w
           = Some (Inr (table_of lib (concat pages)), w\<lparr>calls := calls w + length pages + 1\<rparr>)
       \<and> ((\<forall>c\<in>set (concat pages). entry_of lib c \<noteq> None)
            \<and> distinct (map (\<lambda>c. fst (the (entry_of lib c))) (concat pages)) \<longrightarrow>
          table_of lib (concat pages) = map (\<lambda>c. the (entry_of lib c)) (concat pages)
          \<and> (map length pages = [100, 100, 37] \<longrightarrow>
                length (table_of lib (concat pages)) = 237 \<and> length pages + 1 = 4))"
proof (intro conjI impI)
  show "fetch_category_map lib E w
           = Some (Inr (table_of lib (concat pages)), w\<lparr>calls := calls w + length pages + 1\<rparr>)"
    unfolding fetch_category_map_def table_of_def
    by (rule fetch_category_loop_pages [OF assms])
next
  assume a: "(\<forall>c\<in>set (concat pages). entry_of lib c \<noteq> None)
            \<and> distinct (map (\<lambda>c. fst (the (entry_of lib c))) (concat pages))"
  then have "distinct (map fst ([] @ map (\<lambda>c. the (entry_of lib c)) (concat pages)))"
    by (simp add: comp_def)
  with a show t: "table_of lib (concat pages) = map (\<lambda>c. the (entry_of lib c)) (concat pages)"
    unfolding table_of_def by (subst table_of_complete) simp_all
  assume l: "map length pages = [100, 100, 37]"
  have "length (concat pages) = sum_list (map length pages)"
    by (simp add: length_concat)
  with l t show "length (table_of lib (concat pages)) = 237" by simp
  from l have "length (map length pages) = 3" by simp
  then show "length pages + 1 = 4" by simp
qed

lemma wf_cat_entry: "wf_entry (cat_entry i)"
  by (simp add: wf_entry_def cat_entry_def)

lemma entry_of_cat_entry: "entry_of lib (cat_entry i) = Some (int i, ''Kategoria'')"
  by (simp add: entry_of_def cat_entry_def)

lemma serves_E_cats: "serves E_cats n pg (JList (cat_page pg))"
  by (simp add: serves_def E_cats_def raise_for_status_def)

lemma wf_cat_page: "list_all wf_entry (cat_page pg)"
  by (auto simp: cat_page_def list_all_iff wf_cat_entry simp del: upt_rec_numeral)

lemma length_cat_pages:
  "length (cat_page 1) = 100" "length (cat_page 2) = 100" "length (cat_page 3) = 37"
  "cat_page 4 = []"
  by (simp_all add: cat_page_def del: upt_rec_numeral)

lemma concat_cat_pages: "concat [cat_page 1, cat_page 2, cat_page 3] = map cat_entry [0..<237]"
proof -
  have "[0..<100 + 137] = [0..<100] @ [100..<100 + 137]"
    by (rule upt_add_eq_append) simp
  moreover have "[100..<100 + 137] = [100..<200] @ [200..<200 + 37]"
    using upt_add_eq_append [of 100 200 37] by (simp del: upt_rec_numeral)
  ultimately have "[0..<237] = [0..<100] @ [100..<200] @ [200..<237]"
    by (simp del: upt_rec_numeral)
  then show ?thesis
    by (simp add: cat_page_def del: upt_rec_numeral)
qed

theorem category_pages_witness:
  "serves E_cats (calls w0 + 0) 1 (JList (cat_page 1))
   \<and> serves E_cats (calls w0 + 1) 2 (JList (cat_page 2))
   \<and> serves E_cats (calls w0 + 2) 3 (JList (cat_page 3))
   \<and> serves E_cats (calls w0 + 3) 4 (JList [])
   \<and> map length [cat_page 1, cat_page 2, cat_page 3] = [100, 100, 37]
   \<and> fetch_category_map lib0 E_cats w0
       = Some (Inr (map (\<lambda>i. (int i, ''Kategoria'')) [0..<237]), w0\<lparr>calls := 4\<rparr>)
   \<and> length (map (\<lambda>i. (int i, ''Kategoria'')) [0..<237]) = 237"
proof -
  let ?pages = "[cat_page 1, cat_page 2, cat_page 3]"
  have len: "map length ?pages = [100, 100, 37]" by (simp add: length_cat_pages)
  have ne: "cat_page 1 \<noteq> []" "cat_page 2 \<noteq> []" "cat_page 3 \<noteq> []"
    using length_cat_pages(1-3) by auto
  have h1: "\<forall>k<length ?pages. ?pages ! k \<noteq> [] \<and> list_all wf_entry (?pages ! k)
             \<and> serves E_cats (calls w0 + k) (1 + int k) (JList (?pages ! k))"
  proof (intro allI impI)
    fix k assume "k < length ?pages"
    then have "k = 0 \<or> k = 1 \<or> k = 2" by auto
    with ne show "?pages ! k \<noteq> [] \<and> list_all wf_entry (?pages ! k)
             \<and> serves E_cats (calls w0 + k) (1 + int k) (JList (?pages ! k))"
      using wf_cat_page serves_E_cats by auto
  qed
  have last: "serves E_cats (calls w0 + 3) 4 (JList [])"
    using serves_E_cats [of "calls w0 + 3" 4] by (simp add: length_cat_pages)
  then have h2: "serves E_cats (calls w0 + length ?pages) (1 + int (length ?pages)) (JList [])"
    by (simp add: numeral_3_eq_3)
  have complete: "(\<forall>c\<in>set (concat ?pages). entry_of lib0 c \<noteq> None)
      \<and> distinct (map (\<lambda>c. fst (the (entry_of lib0 c))) (concat ?pages))"
    by (simp only: concat_cat_pages)
       (simp add: entry_of_cat_entry comp_def distinct_map inj_on_def del: upt_rec_numeral)
  note r = category_pages [OF h1 h2, of lib0]
  from r [THEN conjunct2, rule_format, OF complete]
  have t: "table_of lib0 (concat ?pages) = map (\<lambda>i. (int i, ''Kategoria'')) [0..<237]"
    by (simp only: concat_cat_pages)
       (simp add: entry_of_cat_entry comp_def del: upt_rec_numeral)
  from r [THEN conjunct1] t
  have "fetch_category_map lib0 E_cats w0
       = Some (Inr (map (\<lambda>i. (int i, ''Kategoria'')) [0..<237]), w0\<lparr>calls := 4\<rparr>)"
    by (simp add: w0_def del: upt_rec_numeral)
  with last len serves_E_cats show ?thesis
    by (simp del: upt_rec_numeral)
qed


section \<open>Properties of the normalizer\<close>

lemma bind_Inr [simp]: "bind (Inr v) f = f v"
  by (simp add: bind_def)

lemma bind_Inl [simp]: "bind (Inl e) f = Inl e"
  by (simp add: bind_def)

lemma dict_get_field:
  assumes "is_dict v"
  shows "dict_get v k JNull = Inr (field v k)"
  using assms by (cases v) (simp_all add: is_dict_def field_def)

lemma dict_get_or_empty:
  assumes "truthy v \<longrightarrow> is_dict v"
  shows "dict_get (py_or v (JObj [])) k JNull = Inr (field v k)"
  using assms by (cases v) (auto simp: is_dict_def field_def py_or_def)

lemma map_err_category_names:
  assumes "\<forall>cid\<in>set ids. \<exists>i. py_int lib cid = Inr i"
  shows "map_err (\<lambda>cid. bind (py_int lib cid) (\<lambda>i. Inr (cat_get cat_map i (py_str lib cid)))) ids
           = Inr (map (category_name lib cat_map) ids)"
  using assms
  by (induction ids) (auto simp: category_name_def cat_get_def)

lemma title_of_post:
  assumes "truthy t \<longrightarrow> is_dict t \<and> (truthy (field t ''rendered'') \<longrightarrow> is_str (field t ''rendered''))"
  shows "bind (dict_get (py_or t (JObj [])) ''rendered'' (JStr []))
           (\<lambda>r. strip_of (py_or r (JStr [])))
         = Inr (case field t ''rendered'' of JStr s \<Rightarrow> py_strip s | _ \<Rightarrow> [])"
proof (cases "truthy t")
  case False
  have "py_strip [] = []"
    by (simp add: py_strip_def strip_front.simps whitespace_def)
  with False show ?thesis
    by (cases t) (simp_all add: py_or_def field_def)
next
  case True
  with assms obtain kvs where t: "t = JObj kvs" by (cases t) (auto simp: is_dict_def)
  have e: "py_strip [] = []"
    by (simp add: py_strip_def strip_front.simps whitespace_def)
  show ?thesis
  proof (cases "map_of kvs ''rendered''")
    case None
    with True t e show ?thesis by (simp add: py_or_def field_def)
  next
    case (Some r)
    with assms True t have "truthy r \<longrightarrow> is_str r" by (simp add: field_def)
    with Some True t e show ?thesis
      by (cases r) (auto simp: py_or_def field_def is_str_def)
  qed
qed

lemma bag_of_post:
  assumes "is_dict post"
  shows "bind (dict_get post ''acf'' JNull) (\<lambda>a.
             if truthy a then Inr a
             else bind (dict_get post ''meta'' JNull) (\<lambda>m. Inr (py_or m (JObj []))))
         = Inr (py_or (bag post) (JObj []))"
  using assms by (simp add: dict_get_field bag_def py_or_def)

lemma place_of_bag:
  assumes "truthy b \<longrightarrow> is_dict b \<and> (\<not> truthy (field b ''helyszin_rovid_neve'')
                 \<and> truthy (field b ''esemeny_terkep'') \<longrightarrow> is_dict (field b ''esemeny_terkep''))"
  shows "bind (dict_get (py_or b (JObj [])) ''helyszin_rovid_neve'' JNull) (\<lambda>h.
             if truthy h then Inr h
             else bind (dict_get (py_or b (JObj [])) ''esemeny_terkep'' JNull) (\<lambda>m.
                  bind (dict_get (py_or m (JObj [])) ''city'' JNull) (\<lambda>c.
                    Inr (py_or c (JStr EN_DASH)))))
         = Inr (if truthy (field b ''helyszin_rovid_neve'') then field b ''helyszin_rovid_neve''
                else if truthy (field (field b ''esemeny_terkep'') ''city'')
                then field (field b ''esemeny_terkep'') ''city''
                else JStr EN_DASH)"
proof -
  from assms have b: "truthy b \<longrightarrow> is_dict b" by simp
  have m: "\<not> truthy (field b ''helyszin_rovid_neve'') \<Longrightarrow>
      truthy (field b ''esemeny_terkep'') \<longrightarrow> is_dict (field b ''esemeny_terkep'')"
  proof (cases "truthy b")
    case True
    assume "\<not> truthy (field b ''helyszin_rovid_neve'')"
    with assms True show ?thesis by simp
  next
    case False
    then have "field b ''esemeny_terkep'' = JNull"
      by (cases b) (simp_all add: field_def)
    then show ?thesis by simp
  qed
  note outer = dict_get_or_empty [OF b]
  show ?thesis
  proof (cases "truthy (field b ''helyszin_rovid_neve'')")
    case True
    then show ?thesis by (simp only: outer bind_Inr if_True)
  next
    case False
    have "bind (dict_get (py_or (field b ''esemeny_terkep'') (JObj [])) ''city'' JNull)
            (\<lambda>c. Inr (py_or c (JStr EN_DASH)))
          = Inr (py_or (field (field b ''esemeny_terkep'') ''city'') (JStr EN_DASH))"
      by (simp only: dict_get_or_empty [OF m [OF False]] bind_Inr)
    with False show ?thesis
      by (simp only: outer bind_Inr if_False) (simp add: py_or_def)
  qed
qed

lemma ids_of_post:
  assumes "is_dict post"
    and "truthy (field post ''categories'') \<longrightarrow> (\<exists>ids. py_iter (field post ''categories'') = Inr ids)"
  shows "bind (dict_get post ''categories'' (JList [])) (\<lambda>cs. py_iter (py_or cs (JList [])))
         = Inr (category_ids post)"
proof -
  from assms(1) obtain kvs where p: "post = JObj kvs" by (cases post) (auto simp: is_dict_def)
  show ?thesis
  proof (cases "map_of kvs ''categories''")
    case None
    with p show ?thesis by (simp add: py_or_def category_ids_def field_def)
  next
    case (Some cs)
    show ?thesis
    proof (cases "truthy cs")
      case True
      with assms(2) p Some obtain ids where "py_iter cs = Inr ids" by (auto simp: field_def)
      with True p Some show ?thesis by (simp add: py_or_def category_ids_def field_def)
    next
      case False
      then have "py_iter cs = Inr [] \<or> (\<exists>e. py_iter cs = Inl e)"
        by (cases cs) simp_all
      with False p Some show ?thesis by (auto simp: py_or_def category_ids_def field_def)
    qed
  qed
qed


lemma bind_eq_Inr: "bind x f = Inr y \<longleftrightarrow> (\<exists>v. x = Inr v \<and> f v = Inr y)"
  by (cases x) simp_all

lemma link_of_post:
  assumes "is_dict post"
  shows "\<exists>l. dict_get post ''link'' (JStr []) = Inr l
            \<and> py_or l (JStr []) = (if truthy (field post ''link'') then field post ''link''
                                   else JStr [])"
  using assms
  by (cases post) (auto simp: is_dict_def field_def py_or_def split: option.splits)

text \<open>
  C2, as stated, fails: a nested field of the wrong type makes \<^verbatim>\<open>parse_event\<close>
  raise.  A title that is a plain string has no method \<^verbatim>\<open>get\<close>, and a category id
  that is no numeral is rejected by \<^verbatim>\<open>int\<close>.
\<close>

theorem parse_event_raises:
  "parse_event lib0 (JObj [(''title'', JStr ''Wine Fest'')]) [] = Inl AttributeError
   \<and> parse_event lib0 (JObj [(''categories'', JList [JStr ''abc''])]) [] = Inl ValueError"
proof -
  have "py_strip [] = []"
    by (simp add: py_strip_def strip_front.simps whitespace_def)
  then show ?thesis
    by (simp add: parse_event_def py_or_def int_of_abc)
qed

text \<open>
  C2, amended.  For every well-typed record and every category table,
  \<^verbatim>\<open>parse_event\<close> returns, and what it returns is the event of the record: each
  missing or falsy field takes its fallback, a date that does not parse is
  absent, and a category id without an entry in the table stands as its own
  text.
\<close>

theorem parse_event_well_typed:
  assumes "well_typed_post lib post"
  shows "parse_event lib post cat_map = Inr (event_of lib post cat_map)"
proof -
  from assms have d: "is_dict post"
    and t: "truthy (field post ''title'') \<longrightarrow>
            is_dict (field post ''title'')
            \<and> (truthy (field (field post ''title'') ''rendered'') \<longrightarrow>
                  is_str (field (field post ''title'') ''rendered''))"
    and b: "truthy (bag post) \<longrightarrow>
            is_dict (bag post)
            \<and> (\<not> truthy (field (bag post) ''helyszin_rovid_neve'')
                 \<and> truthy (field (bag post) ''esemeny_terkep'') \<longrightarrow>
                  is_dict (field (bag post) ''esemeny_terkep''))"
    and c: "truthy (field post ''categories'') \<longrightarrow>
              (\<exists>ids. py_iter (field post ''categories'') = Inr ids)"
    and i: "truthy (field post ''categories'') \<longrightarrow>
              (\<forall>cid\<in>set (category_ids post). \<exists>i. py_int lib cid = Inr i)"
    by (simp_all add: well_typed_post_def)
  from b have b': "truthy (bag post) \<longrightarrow> is_dict (bag post)" by simp
  have i': "\<forall>cid\<in>set (category_ids post). \<exists>i. py_int lib cid = Inr i"
  proof (cases "truthy (field post ''categories'')")
    case True
    with i show ?thesis by simp
  next
    case False
    then have "category_ids post = []"
      by (cases "field post ''categories''") (simp_all add: category_ids_def)
    then show ?thesis by simp
  qed
  from title_of_post [OF t] obtain r
    where e2: "dict_get (py_or (field post ''title'') (JObj [])) ''rendered'' (JStr []) = Inr r"
      and e3: "strip_of (py_or r (JStr []))
                 = Inr (case field (field post ''title'') ''rendered'' of
                          JStr s \<Rightarrow> py_strip s | _ \<Rightarrow> [])"
    by (auto simp: bind_eq_Inr)
  from link_of_post [OF d] obtain l
    where e4: "dict_get post ''link'' (JStr []) = Inr l"
      and e4': "py_or l (JStr []) = (if truthy (field post ''link'') then field post ''link''
                                    else JStr [])"
    by blast
  from ids_of_post [OF d c] obtain cs
    where e8: "dict_get post ''categories'' (JList []) = Inr cs"
      and e8': "py_iter (py_or cs (JList [])) = Inr (category_ids post)"
    by (auto simp: bind_eq_Inr)
  note e1 = dict_get_field [OF d, of "''title''"]
  note e5 = bag_of_post [OF d]
  note e6 = dict_get_or_empty [OF b', of "''esemeny_kezdete''"]
  note e6' = dict_get_or_empty [OF b', of "''esemeny_vege''"]
  note e7 = place_of_bag [OF b]
  note e9 = map_err_category_names [OF i', of cat_map]
  show ?thesis
    unfolding parse_event_def
    by (simp only: e1 e2 e3 e4 e4' e5 e6 e6' e7 e8 e8' e9 bind_Inr event_of_def)
       (simp add: event_of_def)
qed

lemma py_strip_wine: "py_strip '' Wine Fest '' = ''Wine Fest''"
  by (simp add: py_strip_def strip_front.simps whitespace_def)

theorem parse_event_well_typed_witness:
  "well_typed_post lib0 wine_post
   \<and> parse_event lib0 wine_post [(3, ''Bor'')]
       = Inr \<lparr>Esemeny_neve = ''Wine Fest'', Kezdete = Some ''2024-09-01'', Vege = None,
              Helyszin = JStr ''Eger'', Kategoria = ''7, Bor'',
              Aloldal = JStr ''https://example.org/wine''\<rparr>
   \<and> parse_event lib0 (JObj []) [(3, ''Bor'')] = Inr nameless"
proof -
  have wt: "well_typed_post lib0 wine_post"
    by (simp add: well_typed_post_def wine_post_def field_def is_dict_def is_str_def bag_def
        category_ids_def)
  have wt0: "well_typed_post lib0 (JObj [])"
    by (simp add: well_typed_post_def field_def is_dict_def bag_def)
  have s7: "str_int 7 = ''7''" by code_simp
  have d: "map_option isoformat (strptime_Ymd lib0 ''20240901'') = Some ''2024-09-01''"
    by code_simp
  have d': "strptime_Ymd lib0 ''2024-09-03'' = None" by code_simp
  have "event_of lib0 wine_post [(3, ''Bor'')]
       = \<lparr>Esemeny_neve = ''Wine Fest'', Kezdete = Some ''2024-09-01'', Vege = None,
              Helyszin = JStr ''Eger'', Kategoria = ''7, Bor'',
              Aloldal = JStr ''https://example.org/wine''\<rparr>"
    by (simp add: event_of_def wine_post_def field_def bag_def category_ids_def
        category_name_def py_strip_wine s7 d d')
  moreover have "event_of lib0 (JObj []) [(3, ''Bor'')] = nameless"
    by (simp add: event_of_def field_def bag_def category_ids_def nameless_def)
  ultimately show ?thesis
    using parse_event_well_typed [OF wt, of "[(3, ''Bor'')]"]
      parse_event_well_typed [OF wt0, of "[(3, ''Bor'')]"] wt
    by simp
qed


section \<open>Properties of the query\<close>

lemma contains_sublist: "contains sub s \<longleftrightarrow> sublist sub s"
  by (induction s) (simp_all add: sublist_Cons_right)

lemma has_any_iff:
  "has_any sel cat \<longleftrightarrow> (\<exists>s\<in>set sel. \<exists>p\<in>set (split_on CHR '','' cat). py_strip p = s)"
  by (auto simp: has_any_def Let_def list_ex_iff)

lemma filter_if_nonempty: "(if xs \<noteq> [] then filter P xs else xs) = filter P xs"
  by simp

lemma filter_if_selected:
  "(if sel \<noteq> [] \<and> xs \<noteq> [] then filter P xs else xs) = filter (\<lambda>e. sel = [] \<or> P e) xs"
  by (cases "sel = []") simp_all

lemma df_view_show_sorted: "df_view (show_sorted st df) = sort_key sort_by df"
  by (simp add: show_sorted_def Let_def)

lemma kept_alt:
  "filter (\<lambda>e. selected st = [] \<or> has_any (selected st) (Kategoria e))
     (filter (\<lambda>e. case to_date lib (Kezdete e) of
                    None \<Rightarrow> False
                  | Some d \<Rightarrow> date_from st \<le> d \<and> d \<le> date_to st)
        (filter (\<lambda>e. to_date lib (Kezdete e) \<noteq> None) (df_all st)))
   = filter (\<lambda>e. in_range lib st e \<and> in_selected st e) (df_all st)"
  unfolding in_range_def in_selected_def has_any_iff filter_filter
  by (rule filter_cong) (auto split: option.splits)

lemma apply_filters_pipeline:
  assumes "\<not> (loading st \<and> \<not> chk_live_filter st)" and "df_all st \<noteq> []"
  shows "apply_filters lib st
         = (if needle lib st \<noteq> []
               \<and> filter (\<lambda>e. in_range lib st e \<and> in_selected st e) (df_all st) \<noteq> [] then
              (case re_compile lib (needle lib st) of
                 None \<Rightarrow> (Some ReError, st)
               | Some search \<Rightarrow>
                   (None, show_sorted st
                      (filter (\<lambda>e. search (py_lower lib (Esemeny_neve e))
                                  \<or> search (py_lower lib (py_str lib (Helyszin e))))
                        (filter (\<lambda>e. in_range lib st e \<and> in_selected st e) (df_all st)))))
            else (None, show_sorted st
                    (filter (\<lambda>e. in_range lib st e \<and> in_selected st e) (df_all st))))"
  unfolding apply_filters_def
  by (simp only: assms if_False not_False_eq_True Let_def filter_if_nonempty
        filter_if_selected kept_alt needle_def [symmetric])

lemma in_range_df_all [simp]: "in_range lib (st\<lparr>df_all := evs\<rparr>) = in_range lib st"
  by (simp add: in_range_def fun_eq_iff cong: option.case_cong)

lemma in_selected_df_all [simp]: "in_selected (st\<lparr>df_all := evs\<rparr>) = in_selected st"
  by (simp add: in_selected_def fun_eq_iff)

lemma needle_df_all [simp]: "needle lib (st\<lparr>df_all := evs\<rparr>) = needle lib st"
  by (simp add: needle_def)

text \<open>The query while a download runs and live filtering is off.\<close>

lemma query_gated:
  assumes "loading st \<and> \<not> chk_live_filter st"
  shows "query lib st evs = Inr []"
  using assms by (simp add: query_def apply_filters_def)

text \<open>The query otherwise.\<close>

lemma query_pipeline:
  assumes "\<not> (loading st \<and> \<not> chk_live_filter st)"
  shows "query lib st evs
         = (if needle lib st \<noteq> []
               \<and> filter (\<lambda>e. in_range lib st e \<and> in_selected st e) evs \<noteq> [] then
              (case re_compile lib (needle lib st) of
                 None \<Rightarrow> Inl ReError
               | Some search \<Rightarrow>
                   Inr (sort_key sort_by
                      (filter (\<lambda>e. search (py_lower lib (Esemeny_neve e))
                                  \<or> search (py_lower lib (py_str lib (Helyszin e))))
                        (filter (\<lambda>e. in_range lib st e \<and> in_selected st e) evs))))
            else Inr (sort_key sort_by
                    (filter (\<lambda>e. in_range lib st e \<and> in_selected st e) evs)))"
proof (cases "evs = []")
  case True
  with assms show ?thesis
    by (simp add: query_def apply_filters_def)
next
  case False
  from assms have g: "\<not> (loading (st\<lparr>df_all := evs\<rparr>) \<and> \<not> chk_live_filter (st\<lparr>df_all := evs\<rparr>))"
    by simp
  from False have ne: "df_all (st\<lparr>df_all := evs\<rparr>) \<noteq> []" by simp
  show ?thesis
    unfolding query_def apply_filters_pipeline [OF g ne]
    by (simp add: df_view_show_sorted split: option.splits)
qed


subsection \<open>The order of ISO date texts\<close>

lemma less_append_same_length:
  fixes a b :: string
  assumes "length a = length b"
  shows "a @ r < b @ t \<longleftrightarrow> a < b \<or> a = b \<and> r < t"
  using assms by (induction a b rule: list_induct2) auto

lemma foldl_digits:
  "foldl (\<lambda>acc c. 10 * acc + digit_of_char c) a x
     = a * 10 ^ length x + foldl (\<lambda>acc c. 10 * acc + digit_of_char c) 0 x"
proof (induction x arbitrary: a)
  case Nil
  show ?case by simp
next
  case (Cons c x)
  from Cons.IH [of "10 * a + digit_of_char c"] Cons.IH [of "digit_of_char c"]
  show ?case by (simp add: algebra_simps)
qed

lemma digits_val_Cons:
  "digits_val (c # x) = digit_of_char c * 10 ^ length x + digits_val x"
  using foldl_digits [of "digit_of_char c" x] by (simp add: digits_val_def)

lemma digits_val_bound:
  "list_all is_digit x \<Longrightarrow> digits_val x < 10 ^ length x"
proof (induction x)
  case Nil
  show ?case by (simp add: digits_val_def)
next
  case (Cons c x)
  then have v: "digits_val x < 10 ^ length x" and c: "is_digit c"
    by simp_all
  from c have d: "digit_of_char c \<le> 9"
    unfolding is_digit_iff digit_of_char_def by linarith
  from d have m: "digit_of_char c * 10 ^ length x \<le> 9 * 10 ^ length x"
    by (rule mult_le_mono1)
  have "digits_val (c # x) = digit_of_char c * 10 ^ length x + digits_val x"
    by (rule digits_val_Cons)
  also from m v have "\<dots> < 9 * 10 ^ length x + 10 ^ length x"
    by (rule add_le_less_mono)
  also have "\<dots> = 10 ^ length (c # x)"
    by simp
  finally show ?case .
qed

lemma digits_less:
  assumes "length x = length y" and "list_all is_digit x" and "list_all is_digit y"
    and "x < y"
  shows "digits_val x < digits_val y"
  using assms
proof (induction x y rule: list_induct2)
  case Nil
  then show ?case by simp
next
  case (Cons c x c' y)
  from Cons.prems have dx: "list_all is_digit x" and dy: "list_all is_digit y"
    and c: "is_digit c" and c': "is_digit c'"
    by simp_all
  from Cons.prems(3) have "c < c' \<or> c = c' \<and> x < y" by simp
  then show ?case
  proof
    assume "c < c'"
    with c c' have "digit_of_char c + 1 \<le> digit_of_char c'"
      unfolding is_digit_iff digit_of_char_def less_char_def by linarith
    then have m: "(digit_of_char c + 1) * 10 ^ length x \<le> digit_of_char c' * 10 ^ length x"
      by (rule mult_le_mono1)
    have "digits_val (c # x) = digit_of_char c * 10 ^ length x + digits_val x"
      by (rule digits_val_Cons)
    also from digits_val_bound [OF dx]
    have "\<dots> < digit_of_char c * 10 ^ length x + 10 ^ length x"
      by (rule add_strict_left_mono)
    also have "\<dots> = (digit_of_char c + 1) * 10 ^ length x"
      by simp
    also note m
    also have "digit_of_char c' * 10 ^ length x \<le> digit_of_char c' * 10 ^ length y + digits_val y"
      using Cons.hyps by simp
    also have "\<dots> = digits_val (c' # y)"
      by (rule digits_val_Cons [symmetric])
    finally show ?thesis .
  next
    assume "c = c' \<and> x < y"
    with Cons.IH [OF dx dy] Cons.hyps show ?thesis
      by (simp add: digits_val_Cons)
  qed
qed

lemma iso_shape_parts:
  assumes "iso_shape s"
  shows "s = take 4 s @ CHR ''-'' # take 2 (drop 5 s) @ CHR ''-'' # drop 8 s"
proof -
  from assms have l: "length s = 10" and d4: "s ! 4 = CHR ''-''" and d7: "s ! 7 = CHR ''-''"
    by (simp_all add: iso_shape_def)
  from l have "s = take 4 s @ s ! 4 # drop (Suc 4) s"
    by (intro id_take_nth_drop) simp
  moreover from l have "drop 5 s = take 2 (drop 5 s) @ drop 5 s ! 2 # drop (Suc 2) (drop 5 s)"
    by (intro id_take_nth_drop) simp
  moreover from l have "drop 5 s ! 2 = s ! 7" by simp
  ultimately show ?thesis
    using d4 d7 by (simp add: numeral_3_eq_3 eval_nat_numeral)
qed

text \<open>The date a text of the form \<^verbatim>\<open>dddd-dd-dd\<close> stands for.\<close>

lemma iso_less:
  assumes "iso_shape s" and "iso_shape t" and "s < t"
  shows "(digits_val (take 4 s), digits_val (take 2 (drop 5 s)), digits_val (drop 8 s))
       < (digits_val (take 4 t), digits_val (take 2 (drop 5 t)), digits_val (drop 8 t))"
proof -
  let ?a = "take 4 s" and ?b = "take 2 (drop 5 s)" and ?c = "drop 8 s"
  let ?a' = "take 4 t" and ?b' = "take 2 (drop 5 t)" and ?c' = "drop 8 t"
  from assms(1,2) have la: "length ?a = length ?a'" and lb: "length ?b = length ?b'"
    and lc: "length ?c = length ?c'"
    by (simp_all add: iso_shape_def)
  from assms(1,2) have d: "list_all is_digit ?a" "list_all is_digit ?b" "list_all is_digit ?c"
    "list_all is_digit ?a'" "list_all is_digit ?b'" "list_all is_digit ?c'"
    by (simp_all add: iso_shape_def)
  from assms(3) iso_shape_parts [OF assms(1)] iso_shape_parts [OF assms(2)]
  have "?a @ CHR ''-'' # ?b @ CHR ''-'' # ?c < ?a' @ CHR ''-'' # ?b' @ CHR ''-'' # ?c'"
    by simp
  then have "?a < ?a' \<or> ?a = ?a' \<and> (?b < ?b' \<or> ?b = ?b' \<and> ?c < ?c')"
    by (simp add: less_append_same_length [OF la] less_append_same_length [OF lb])
  then show ?thesis
    using digits_less [OF la d(1) d(4)] digits_less [OF lb d(2) d(5)]
      digits_less [OF lc d(3) d(6)]
    by auto
qed

lemma key_mono:
  assumes "iso_start e1" and "iso_start e2"
    and "to_date lib (Kezdete e1) \<noteq> None" and "to_date lib (Kezdete e2) \<noteq> None"
    and "sort_by e1 \<le> sort_by e2"
  shows "date_key lib e1 \<le> date_key lib e2"
proof -
  from assms(1,3) obtain s where s: "Kezdete e1 = Some s" "iso_shape s"
    by (cases "Kezdete e1") (auto simp: iso_start_def to_date_def)
  from assms(2,4) obtain t where t: "Kezdete e2 = Some t" "iso_shape t"
    by (cases "Kezdete e2") (auto simp: iso_start_def to_date_def)
  let ?D = "\<lambda>s. (digits_val (take 4 s), digits_val (take 2 (drop 5 s)), digits_val (drop 8 s))"
  from s assms(3) have d1: "the (to_date lib (Kezdete e1)) = ?D s"
    by (auto simp: to_date_def fromisoformat_def Let_def split: if_splits)
  from t assms(4) have d2: "the (to_date lib (Kezdete e2)) = ?D t"
    by (auto simp: to_date_def fromisoformat_def Let_def split: if_splits)
  from assms(5) s t have "s < t \<or> s = t \<and> Esemeny_neve e1 \<le> Esemeny_neve e2"
    by (auto simp: sort_by_def)
  then show ?thesis
  proof
    assume "s < t"
    from iso_less [OF s(2) t(2) this] show ?thesis
      by (simp add: date_key_def d1 d2)
  next
    assume "s = t \<and> Esemeny_neve e1 \<le> Esemeny_neve e2"
    then show ?thesis
      by (simp add: date_key_def d1 d2)
  qed
qed


subsection \<open>The result of the query\<close>

lemma keeps_filter:
  "filter (query_keeps lib st) evs
     = filter (has_text lib st) (filter (\<lambda>e. in_range lib st e \<and> in_selected st e) evs)"
  unfolding filter_filter query_keeps_def
  by (rule filter_cong) auto

lemma sort_key_Nil_iff: "sort_key f xs = [] \<longleftrightarrow> xs = []"
  using length_sort [of f xs] by (cases xs) auto

lemma sort_key_idem: "sort_key f (sort_key f xs) = sort_key f xs"
  by (simp add: sort_key_id_if_sorted)

lemma filter_sorted_sub:
  assumes "\<And>x. Q x \<Longrightarrow> P x"
  shows "filter P (sort_key f (filter Q xs)) = sort_key f (filter Q xs)"
proof -
  from assms have "filter P (filter Q xs) = filter Q xs"
    unfolding filter_filter by (intro filter_cong) auto
  then show ?thesis by (simp only: filter_sort)
qed

text \<open>
  C5, as stated, fails.  A search text of one blank is not empty, but the query
  is run with the text stripped: the event is returned though neither its title
  nor its place has a blank.  A search text \<^verbatim>\<open>(\<close> is not a regular expression:
  \<^verbatim>\<open>str.contains\<close> raises, where no event matches.
\<close>

theorem blank_and_bracket_queries:
  "txt_search app_blank = '' ''
   \<and> query lib0 app_blank [fair] = Inr [fair]
   \<and> \<not> sublist '' '' (py_lower lib0 (Esemeny_neve fair))
   \<and> \<not> sublist '' '' (py_lower lib0 (py_str lib0 (Helyszin fair)))
   \<and> txt_search app_paren = ''(''
   \<and> query lib0 app_paren [fair] = Inl ReError"
proof -
  have g1: "\<not> (loading app_blank \<and> \<not> chk_live_filter app_blank)"
    and g2: "\<not> (loading app_paren \<and> \<not> chk_live_filter app_paren)"
    by (simp_all add: app_blank_def app_paren_def app0_def)
  have n1: "needle lib0 app_blank = []"
    by (simp add: needle_def app_blank_def app0_def) code_simp
  have n2: "needle lib0 app_paren = ''(''"
    by (simp add: needle_def app_paren_def app0_def) code_simp
  have r: "in_range lib0 app_blank fair" "in_range lib0 app_paren fair"
    by (simp_all add: in_range_def app_blank_def app_paren_def app0_def) code_simp+
  have s: "in_selected app_blank fair" "in_selected app_paren fair"
    by (simp_all add: in_selected_def app_blank_def app_paren_def app0_def)
  have c: "re_compile lib0 ''('' = None"
    by (simp add: re_compile_def re_special_def lib0_def)
  have a: "query lib0 app_blank [fair] = Inr [fair]"
    by (simp add: query_pipeline [OF g1] n1 r s)
  have b: "query lib0 app_paren [fair] = Inl ReError"
    by (simp add: query_pipeline [OF g2] n2 r s c)
  have t: "\<not> sublist '' '' (py_lower lib0 (Esemeny_neve fair))"
    "\<not> sublist '' '' (py_lower lib0 (py_str lib0 (Helyszin fair)))"
    unfolding contains_sublist [symmetric] by code_simp+
  from a b t show ?thesis
    by (simp add: app_blank_def app_paren_def)
qed

text \<open>
  C5, amended.  Outside a download with live filtering off, and for a search
  text that, stripped and in lower case, has none of the characters
  \<^verbatim>\<open>. ^ $ * + ? { } [ ] | ( )\<close> and the backslash, the query returns, never an error,
  exactly the events whose start parses to a date within the two bounds, of
  which (when categories are selected) one of the names between the commas,
  stripped, is a selected name, and which (when the stripped search text is not
  empty) have it, in lower case, as a substring of the title or of the place in
  lower case.  The result is sorted, stably, by the start as a text and then
  the title; when the starts are ISO date texts, as the normalizer writes them,
  that is the order of the start as a date and then the title.  When nothing
  matches, the result is the empty sequence.
\<close>

theorem query_result:
  assumes "\<not> (loading st \<and> \<not> chk_live_filter st)"
    and "\<not> list_ex re_special (needle lib st)"
  shows "query lib st evs = Inr (sort_key sort_by (filter (query_keeps lib st) evs))
       \<and> (list_all iso_start evs \<longrightarrow>
            sorted (map (date_key lib) (sort_key sort_by (filter (query_keeps lib st) evs))))
       \<and> (filter (query_keeps lib st) evs = [] \<longrightarrow> query lib st evs = Inr [])"
proof -
  let ?K = "\<lambda>e. in_range lib st e \<and> in_selected st e"
  let ?res = "sort_key sort_by (filter (query_keeps lib st) evs)"
  from assms(2) have c: "re_compile lib (needle lib st) = Some (contains (needle lib st))"
    by (simp add: re_compile_def)
  have q: "query lib st evs = Inr ?res"
  proof (cases "needle lib st \<noteq> [] \<and> filter ?K evs \<noteq> []")
    case True
    then have "has_text lib st
        = (\<lambda>e. contains (needle lib st) (py_lower lib (Esemeny_neve e))
              \<or> contains (needle lib st) (py_lower lib (py_str lib (Helyszin e))))"
      by (simp add: has_text_def contains_sublist fun_eq_iff)
    with True c show ?thesis
      by (simp add: query_pipeline [OF assms(1)] keeps_filter)
  next
    case False
    have "filter (has_text lib st) (filter ?K evs) = filter ?K evs"
    proof (cases "needle lib st = []")
      case True
      then show ?thesis by (simp add: has_text_def)
    next
      case ne: False
      with False have "filter ?K evs = []" by simp
      then show ?thesis by simp
    qed
    with False show ?thesis
      by (simp only: query_pipeline [OF assms(1)] keeps_filter if_False)
  qed
  have d: "sorted (map (date_key lib) ?res)" if iso: "list_all iso_start evs"
  proof -
    have "sorted (map sort_by ?res)"
      by (rule sorted_sort_key)
    then have "sorted_wrt (\<lambda>x y. sort_by x \<le> sort_by y) ?res"
      by (simp add: sorted_map)
    then have "sorted_wrt (\<lambda>x y. date_key lib x \<le> date_key lib y) ?res"
    proof (rule sorted_wrt_mono_rel [rotated])
      fix x y
      assume "x \<in> set ?res" and "y \<in> set ?res" and le: "sort_by x \<le> sort_by y"
      then have "x \<in> set evs" "y \<in> set evs" "in_range lib st x" "in_range lib st y"
        by (simp_all add: query_keeps_def)
      with iso have "iso_start x" "iso_start y"
        and "to_date lib (Kezdete x) \<noteq> None" "to_date lib (Kezdete y) \<noteq> None"
        by (auto simp: list_all_iff in_range_def split: option.splits)
      then show "date_key lib x \<le> date_key lib y"
        using le by (rule key_mono)
    qed
    then show ?thesis by (simp add: sorted_map)
  qed
  from q d show ?thesis by simp
qed

theorem query_result_witness:
  "\<not> (loading app_year \<and> \<not> chk_live_filter app_year)
   \<and> \<not> list_ex re_special (needle lib0 app_year)
   \<and> list_all iso_start [fair, wine_fest]
   \<and> query_keeps lib0 app_year fair
   \<and> query_keeps lib0 app_year wine_fest
   \<and> query lib0 app_year [fair, wine_fest] = Inr [wine_fest, fair]
   \<and> sorted (map (date_key lib0) [wine_fest, fair])
   \<and> \<not> (loading app_search \<and> \<not> chk_live_filter app_search)
   \<and> needle lib0 app_search = ''eger''
   \<and> \<not> list_ex re_special (needle lib0 app_search)
   \<and> \<not> query_keeps lib0 app_search fair
   \<and> query_keeps lib0 app_search wine_fest
   \<and> query lib0 app_search [fair, wine_fest] = Inr [wine_fest]"
proof -
  have g: "\<not> (loading app_year \<and> \<not> chk_live_filter app_year)"
    and g': "\<not> (loading app_search \<and> \<not> chk_live_filter app_search)"
    by (simp_all add: app_search_def app_year_def app0_def)
  have n: "needle lib0 app_year = []"
    by (simp add: needle_def app_year_def app0_def) code_simp
  have n': "needle lib0 app_search = ''eger''"
    by (simp add: needle_def app_search_def app_year_def app0_def) code_simp
  from n have m: "\<not> list_ex re_special (needle lib0 app_year)"
    by simp
  have m': "\<not> list_ex re_special (needle lib0 app_search)"
    unfolding n' by code_simp
  have i: "list_all iso_start [fair, wine_fest]"
    by (simp add: iso_start_def fair_def wine_fest_def) code_simp
  have r: "in_range lib0 app_year fair" "in_range lib0 app_year wine_fest"
    "in_range lib0 app_search fair" "in_range lib0 app_search wine_fest"
    by (simp_all add: in_range_def app_search_def app_year_def app0_def) code_simp+
  have s: "in_selected app_year fair" "in_selected app_year wine_fest"
    by (simp_all add: in_selected_def app_year_def app0_def)
  have s': "in_selected app_search fair" "in_selected app_search wine_fest"
    by (simp_all add: in_selected_def app_search_def app_year_def app0_def) code_simp+
  have t: "has_text lib0 app_year fair" "has_text lib0 app_year wine_fest"
    by (simp_all add: has_text_def n)
  have t': "\<not> has_text lib0 app_search fair" "has_text lib0 app_search wine_fest"
    unfolding has_text_def n' contains_sublist [symmetric] by code_simp+
  have o: "sort_key sort_by [fair, wine_fest] = [wine_fest, fair]"
    by code_simp
  from r s t have k: "query_keeps lib0 app_year fair" "query_keeps lib0 app_year wine_fest"
    by (simp_all add: query_keeps_def)
  from r s' t' have k': "\<not> query_keeps lib0 app_search fair"
    "query_keeps lib0 app_search wine_fest"
    by (simp_all add: query_keeps_def)
  from query_result [OF g m, of "[fair, wine_fest]"] i k o
  have a: "query lib0 app_year [fair, wine_fest] = Inr [wine_fest, fair]
           \<and> sorted (map (date_key lib0) [wine_fest, fair])"
    by simp
  from query_result [OF g' m', of "[fair, wine_fest]"] k'
  have b: "query lib0 app_search [fair, wine_fest] = Inr [wine_fest]"
    by simp
  from a b g g' n' m m' i k k' show ?thesis by simp
qed

lemma query_fixed_point:
  "bind (query lib st evs) (query lib st) = query lib st evs"
proof (cases "loading st \<and> \<not> chk_live_filter st")
  case True
  then show ?thesis by (simp add: query_gated bind_def)
next
  case False
  let ?K = "\<lambda>e. in_range lib st e \<and> in_selected st e"
  note qp = query_pipeline [OF False]
  show ?thesis
  proof (cases "needle lib st \<noteq> [] \<and> filter ?K evs \<noteq> []")
    case run: True
    show ?thesis
    proof (cases "re_compile lib (needle lib st)")
      case None
      with run show ?thesis by (simp add: qp bind_def)
    next
      case (Some search)
      let ?M = "\<lambda>e. search (py_lower lib (Esemeny_neve e))
                     \<or> search (py_lower lib (py_str lib (Helyszin e)))"
      let ?V = "sort_key sort_by (filter (\<lambda>e. ?K e \<and> ?M e) evs)"
      from run Some have first: "query lib st evs = Inr ?V"
        by (simp add: qp)
      have k: "filter ?K ?V = ?V" by (rule filter_sorted_sub) simp
      have m: "filter ?M ?V = ?V" by (rule filter_sorted_sub) simp
      have "query lib st ?V = Inr ?V"
        by (simp only: qp [of lib ?V] k Some option.case m sort_key_idem if_cancel)
      with first show ?thesis by (simp add: bind_def)
    qed
  next
    case skip: False
    let ?V = "sort_key sort_by (filter ?K evs)"
    from skip have first: "query lib st evs = Inr ?V"
      by (simp only: qp if_False)
    have k: "filter ?K ?V = ?V" by (rule filter_sorted_sub) simp
    from skip have "\<not> (needle lib st \<noteq> [] \<and> ?V \<noteq> [])"
      by (simp add: sort_key_Nil_iff)
    then have "query lib st ?V = Inr ?V"
      by (simp only: qp [of lib ?V] k if_False sort_key_idem)
    with first show ?thesis by (simp add: bind_def)
  qed
qed

text \<open>
  C9.  The query is idempotent: run on its own result with the same criteria,
  it returns that result; when it raises, so does the query of the query.
\<close>

theorem query_idempotent:
  "bind (query lib st evs) (query lib st) = query lib st evs
   \<and> (query lib st evs = Inr res \<longrightarrow> query lib st res = Inr res)"
  using query_fixed_point [of lib st evs] by (auto simp: bind_def)

theorem query_idempotent_witness:
  "query lib0 app_year [fair, wine_fest] = Inr [wine_fest, fair]
   \<and> query lib0 app_year [wine_fest, fair] = Inr [wine_fest, fair]"
proof -
  have g: "\<not> (loading app_year \<and> \<not> chk_live_filter app_year)"
    by (simp add: app_year_def app0_def)
  have n: "needle lib0 app_year = []"
    by (simp add: needle_def app_year_def app0_def) code_simp
  have r: "in_range lib0 app_year fair" "in_range lib0 app_year wine_fest"
    by (simp_all add: in_range_def app_year_def app0_def) code_simp+
  have s: "in_selected app_year fair" "in_selected app_year wine_fest"
    by (simp_all add: in_selected_def app_year_def app0_def)
  have o: "sort_key sort_by [fair, wine_fest] = [wine_fest, fair]"
    by code_simp
  have a: "query lib0 app_year [fair, wine_fest] = Inr [wine_fest, fair]"
    by (simp only: query_pipeline [OF g] n r s simp_thms filter.simps if_True if_False o)
  with query_idempotent [of lib0 app_year "[fair, wine_fest]" "[wine_fest, fair]"]
  have "query lib0 app_year [wine_fest, fair] = Inr [wine_fest, fair]"
    by simp
  with a show ?thesis by simp
qed

end
